theory Spec2Isabelle
  imports Complex_Main "HOL-Library.Sublist"
begin

section \<open>JavaScript strings\<close>

text \<open>
  A JavaScript string is a sequence of UTF-16 code units. A code unit is kept as its
  number; literals of the source are written with \<open>str\<close>, which maps an ASCII
  literal to its code units.
\<close>

type_synonym jsstring = "nat list"

definition str :: "string \<Rightarrow> jsstring" where
  "str s = map of_char s"

text \<open>
  The characters matched by \<^verbatim>\<open>\s\<close> in a regular expression and removed by
  \<^verbatim>\<open>String.prototype.trim\<close>: TAB, LF, VT, FF, CR, SP, NBSP, U+1680, U+2000..U+200A,
  U+2028, U+2029, U+202F, U+205F, U+3000 and U+FEFF.
\<close>

definition is_space :: "nat \<Rightarrow> bool" where
  "is_space c \<longleftrightarrow>
     (9 \<le> c \<and> c \<le> 13) \<or> c = 32 \<or> c = 160 \<or> c = 5760 \<or> (8192 \<le> c \<and> c \<le> 8202) \<or>
     c = 8232 \<or> c = 8233 \<or> c = 8239 \<or> c = 8287 \<or> c = 12288 \<or> c = 65279"

text \<open>\<^verbatim>\<open>t.trim()\<close>: leading and trailing white space removed.\<close>

definition trim :: "jsstring \<Rightarrow> jsstring" where
  "trim t = rev (dropWhile is_space (rev (dropWhile is_space t)))"

section \<open>The text sanitizer of \<^verbatim>\<open>analyze\<close>\<close>

text \<open>
  \<^verbatim>\<open>
  const cleaned = resumeText
    .replace(/[^\x20-\x7E\n\r\t]/g, " ")
    .replace(/\s{4,}/g, "   ")
    .trim()
    .slice(0, 3000);
  \<close>
\<close>

text \<open>The class \<^verbatim>\<open>[\x20-\x7E\n\r\t]\<close>.\<close>

definition safe_char :: "nat \<Rightarrow> bool" where
  "safe_char c \<longleftrightarrow> (32 \<le> c \<and> c \<le> 126) \<or> c = 10 \<or> c = 13 \<or> c = 9"

text \<open>First replace: every code unit outside the class becomes a space.\<close>

definition strip_unsafe :: "jsstring \<Rightarrow> jsstring" where
  "strip_unsafe t = map (\<lambda>c. if safe_char c then c else 32) t"

text \<open>
  Second replace, \<^verbatim>\<open>/\s{4,}/g\<close> by three spaces. The global replace scans from the left;
  at each position the greedy quantifier takes the whole run of white space that starts
  there, and the match succeeds when that run has at least four characters. After a match
  the scan continues behind it; otherwise the character is copied.
\<close>

function collapse_ws :: "jsstring \<Rightarrow> jsstring" where
  "collapse_ws [] = []"
| "collapse_ws (c # cs) =
     (if 4 \<le> length (takeWhile is_space (c # cs))
      then [32, 32, 32] @ collapse_ws (dropWhile is_space cs)
      else c # collapse_ws cs)"
  by pat_completeness auto
termination
  by (relation "measure length") (auto simp: less_Suc_eq_le length_dropWhile_le)

definition cleaned :: "jsstring \<Rightarrow> jsstring" where
  "cleaned resumeText = take 3000 (trim (collapse_ws (strip_unsafe resumeText)))"


section \<open>JSON values and \<^verbatim>\<open>JSON.parse\<close>\<close>

datatype jsnum = Fin rat | PInf | NInf

datatype json =
    JNull
  | JBool bool
  | JNum jsnum
  | JStr jsstring
  | JArr "json list"
  | JObj "(jsstring \<times> json) list"

text \<open>
  A Number is a double. \<^verbatim>\<open>JSON.parse\<close> takes the mathematical value of a literal,
  \<open>m * 10 ^ e\<close> for the digits \<open>m\<close> and the exponent \<open>e\<close>, to the nearest double, a tie to
  the one with the even significand; a value that rounds to \<open>2 ^ 1024\<close> or more is an
  infinity. The sign of a zero is not kept.

  \<open>bitlen n\<close> is the number of binary digits of \<open>n\<close>, \<open>round_half_even a b\<close> the integer
  nearest to \<open>a / b\<close>, and \<open>nearest_double a b\<close> the double nearest to \<open>a / b\<close>, which is
  \<open>n * 2 ^ k\<close> for the least \<open>k\<close> from \<open>- 1074\<close> on with \<open>n \<le> 2 ^ 53\<close>.
\<close>

fun bitlen :: "nat \<Rightarrow> nat" where
  "bitlen n = (if n = 0 then 0 else bitlen (n div 2) + 1)"

declare bitlen.simps [simp del]

definition round_half_even :: "nat \<Rightarrow> nat \<Rightarrow> nat" where
  "round_half_even a b =
     (let n = a div b; r = a mod b
      in if 2 * r < b then n else if b < 2 * r then n + 1 else if even n then n else n + 1)"

definition nearest_double :: "nat \<Rightarrow> nat \<Rightarrow> rat" where
  "nearest_double a b =
     (let la = bitlen a; lb = bitlen b;
          t = (if b * 2 ^ la \<le> a * 2 ^ lb then int la - int lb else int la - int lb - 1);
          k = max (t - 52) (- 1074)
      in if 0 \<le> k then of_nat (round_half_even a (b * 2 ^ nat k)) * 2 ^ nat k
         else of_nat (round_half_even (a * 2 ^ nat (- k)) b) / 2 ^ nat (- k))"

definition Number_of_literal :: "bool \<Rightarrow> nat \<Rightarrow> int \<Rightarrow> jsnum" where
  "Number_of_literal neg m e =
     (let q = (if 0 \<le> e then nearest_double (m * 10 ^ nat e) 1
               else nearest_double m (10 ^ nat (- e)))
      in if 2 ^ 1024 \<le> q then (if neg then NInf else PInf)
         else Fin (if neg then - q else q))"

definition is_json_ws :: "nat \<Rightarrow> bool" where
  "is_json_ws c \<longleftrightarrow> c = 32 \<or> c = 9 \<or> c = 10 \<or> c = 13"

definition skip_ws :: "jsstring \<Rightarrow> jsstring" where
  "skip_ws s = dropWhile is_json_ws s"

definition is_digit :: "nat \<Rightarrow> bool" where
  "is_digit c \<longleftrightarrow> 48 \<le> c \<and> c \<le> 57"

definition digits_val :: "jsstring \<Rightarrow> nat" where
  "digits_val ds = foldl (\<lambda>a c. 10 * a + (c - 48)) 0 ds"

fun strip_pre :: "jsstring \<Rightarrow> jsstring \<Rightarrow> jsstring option" where
  "strip_pre [] s = Some s"
| "strip_pre (p # ps) [] = None"
| "strip_pre (p # ps) (c # cs) = (if p = c then strip_pre ps cs else None)"

text \<open>The optional exponent part of a number: \<^verbatim>\<open>[eE][+-]?[0-9]+\<close>.\<close>

definition parse_exp :: "jsstring \<Rightarrow> (int \<times> jsstring) option" where
  "parse_exp s =
     (case s of
        [] \<Rightarrow> Some (0, s)
      | c # cs \<Rightarrow>
          if c = 101 \<or> c = 69 then
            (let (neg, r) = (case cs of
                               [] \<Rightarrow> (False, cs)
                             | d # ds \<Rightarrow> if d = 45 then (True, ds) else if d = 43 then (False, ds) else (False, cs));
                 ed = takeWhile is_digit r
             in if ed = [] then None
                else Some (if neg then - int (digits_val ed) else int (digits_val ed), dropWhile is_digit r))
          else Some (0, s))"

definition parse_frac :: "jsstring \<Rightarrow> (jsstring \<times> jsstring) option" where
  "parse_frac s =
     (case s of
        [] \<Rightarrow> Some ([], s)
      | c # cs \<Rightarrow>
          if c = 46 then
            (let fd = takeWhile is_digit cs in if fd = [] then None else Some (fd, dropWhile is_digit cs))
          else Some ([], s))"

definition parse_int :: "jsstring \<Rightarrow> (jsstring \<times> jsstring) option" where
  "parse_int s =
     (case s of
        [] \<Rightarrow> None
      | c # cs \<Rightarrow>
          if c = 48 then Some ([48], cs)
          else if is_digit c then Some (takeWhile is_digit s, dropWhile is_digit s)
          else None)"

definition parse_number :: "jsstring \<Rightarrow> (jsnum \<times> jsstring) option" where
  "parse_number s =
     (let (neg, s1) = (case s of [] \<Rightarrow> (False, s) | c # cs \<Rightarrow> if c = 45 then (True, cs) else (False, s))
      in case parse_int s1 of
           None \<Rightarrow> None
         | Some (ip, s2) \<Rightarrow>
             (case parse_frac s2 of
                None \<Rightarrow> None
              | Some (fd, s3) \<Rightarrow>
                  (case parse_exp s3 of
                     None \<Rightarrow> None
                   | Some (ex, s4) \<Rightarrow>
                       Some (Number_of_literal neg (digits_val (ip @ fd)) (ex - int (length fd)), s4))))"

definition hex_val :: "nat \<Rightarrow> nat option" where
  "hex_val c =
     (if 48 \<le> c \<and> c \<le> 57 then Some (c - 48)
      else if 97 \<le> c \<and> c \<le> 102 then Some (c - 87)
      else if 65 \<le> c \<and> c \<le> 70 then Some (c - 55)
      else None)"

definition unescape :: "nat \<Rightarrow> nat option" where
  "unescape e =
     (if e = 34 \<or> e = 92 \<or> e = 47 then Some e
      else if e = 98 then Some 8
      else if e = 102 then Some 12
      else if e = 110 then Some 10
      else if e = 114 then Some 13
      else if e = 116 then Some 9
      else None)"

definition hex4 :: "nat \<Rightarrow> nat \<Rightarrow> nat \<Rightarrow> nat \<Rightarrow> nat option" where
  "hex4 a b c d =
     (case (hex_val a, hex_val b, hex_val c, hex_val d) of
        (Some x, Some y, Some z, Some w) \<Rightarrow> Some (4096 * x + 256 * y + 16 * z + w)
      | _ \<Rightarrow> None)"

fun parse_chars :: "jsstring \<Rightarrow> (jsstring \<times> jsstring) option" where
  "parse_chars [] = None"
| "parse_chars (c # cs) =
     (if c = 34 then Some ([], cs)
      else if c = 92 then
        (case cs of
           [] \<Rightarrow> None
         | e # es \<Rightarrow>
             if e = 117 then
               (case es of
                  a # b # c' # d # r \<Rightarrow>
                    (case hex4 a b c' d of
                       None \<Rightarrow> None
                     | Some u \<Rightarrow> (case parse_chars r of None \<Rightarrow> None | Some (t, r') \<Rightarrow> Some (u # t, r')))
                | _ \<Rightarrow> None)
             else
               (case unescape e of
                  None \<Rightarrow> None
                | Some u \<Rightarrow> (case parse_chars es of None \<Rightarrow> None | Some (t, r') \<Rightarrow> Some (u # t, r'))))
      else if c < 32 then None
      else (case parse_chars cs of None \<Rightarrow> None | Some (t, r') \<Rightarrow> Some (c # t, r')))"

text \<open>
  An object is the list of its properties in the order in which they are enumerated: first
  the properties whose name is an array index (the decimal text, without a leading zero,
  of an integer below \<open>2 ^ 32 - 1\<close>) in ascending order of the index, then the others in the
  order of their creation. \<open>obj_set k v\<close> is \<^verbatim>\<open>CreateDataProperty\<close>: a property that exists
  gets the value \<open>v\<close> and keeps its place, a new one is put at its place in that order.
\<close>

definition is_index :: "jsstring \<Rightarrow> bool" where
  "is_index k \<longleftrightarrow>
     k \<noteq> [] \<and> list_all is_digit k \<and> (k = [48] \<or> 49 \<le> hd k) \<and> digits_val k < 2 ^ 32 - 1"

fun obj_insert :: "jsstring \<Rightarrow> json \<Rightarrow> (jsstring \<times> json) list \<Rightarrow> (jsstring \<times> json) list" where
  "obj_insert k v [] = [(k, v)]"
| "obj_insert k v ((k', v') # kvs) =
     (if is_index k \<and> (if is_index k' then digits_val k < digits_val k' else True)
      then (k, v) # (k', v') # kvs
      else (k', v') # obj_insert k v kvs)"

definition obj_set :: "jsstring \<Rightarrow> json \<Rightarrow> (jsstring \<times> json) list \<Rightarrow> (jsstring \<times> json) list" where
  "obj_set k v kvs =
     (if k \<in> fst ` set kvs then map (\<lambda>kv. if fst kv = k then (k, v) else kv) kvs
      else obj_insert k v kvs)"

fun parse_value :: "nat \<Rightarrow> jsstring \<Rightarrow> (json \<times> jsstring) option"
  and parse_elems :: "nat \<Rightarrow> json list \<Rightarrow> jsstring \<Rightarrow> (json \<times> jsstring) option"
  and parse_members :: "nat \<Rightarrow> (jsstring \<times> json) list \<Rightarrow> jsstring \<Rightarrow> (json \<times> jsstring) option"
where
  "parse_value 0 s = None"
| "parse_value (Suc n) s =
     (case skip_ws s of
        [] \<Rightarrow> None
      | c # cs \<Rightarrow>
          if c = 91 then
            (case skip_ws cs of
               [] \<Rightarrow> None
             | d # ds \<Rightarrow> if d = 93 then Some (JArr [], ds) else parse_elems n [] cs)
          else if c = 123 then
            (case skip_ws cs of
               [] \<Rightarrow> None
             | d # ds \<Rightarrow> if d = 125 then Some (JObj [], ds) else parse_members n [] cs)
          else if c = 34 then
            (case parse_chars cs of None \<Rightarrow> None | Some (t, r) \<Rightarrow> Some (JStr t, r))
          else if c = 116 then
            (case strip_pre [114, 117, 101] cs of None \<Rightarrow> None | Some r \<Rightarrow> Some (JBool True, r))
          else if c = 102 then
            (case strip_pre [97, 108, 115, 101] cs of None \<Rightarrow> None | Some r \<Rightarrow> Some (JBool False, r))
          else if c = 110 then
            (case strip_pre [117, 108, 108] cs of None \<Rightarrow> None | Some r \<Rightarrow> Some (JNull, r))
          else
            (case parse_number (c # cs) of None \<Rightarrow> None | Some (x, r) \<Rightarrow> Some (JNum x, r)))"
| "parse_elems 0 acc s = None"
| "parse_elems (Suc n) acc s =
     (case parse_value n s of
        None \<Rightarrow> None
      | Some (v, r) \<Rightarrow>
          (case skip_ws r of
             [] \<Rightarrow> None
           | d # ds \<Rightarrow>
               if d = 44 then parse_elems n (acc @ [v]) ds
               else if d = 93 then Some (JArr (acc @ [v]), ds)
               else None))"
| "parse_members 0 acc s = None"
| "parse_members (Suc n) acc s =
     (case skip_ws s of
        [] \<Rightarrow> None
      | q # qs \<Rightarrow>
          if q \<noteq> 34 then None
          else
            (case parse_chars qs of
               None \<Rightarrow> None
             | Some (k, r) \<Rightarrow>
                 (case skip_ws r of
                    [] \<Rightarrow> None
                  | col # r1 \<Rightarrow>
                      if col \<noteq> 58 then None
                      else
                        (case parse_value n r1 of
                           None \<Rightarrow> None
                         | Some (v, r2) \<Rightarrow>
                             (case skip_ws r2 of
                                [] \<Rightarrow> None
                              | d # ds \<Rightarrow>
                                  if d = 44 then parse_members n (obj_set k v acc) ds
                                  else if d = 125 then Some (JObj (obj_set k v acc), ds)
                                  else None)))))"

definition JSON_parse :: "jsstring \<Rightarrow> json option" where
  "JSON_parse s =
     (case parse_value (Suc (length s + length s)) s of
        None \<Rightarrow> None
      | Some (v, r) \<Rightarrow> if skip_ws r = [] then Some v else None)"

section \<open>The structured-output parser \<^verbatim>\<open>parseJSON\<close>\<close>

text \<open>
  \<^verbatim>\<open>
  const parseJSON = (txt) => {
    if (!txt) return null;
    for (const fn of [
      (t) => JSON.parse(t.trim()),
      (t) => JSON.parse(t.replace(/```json|```/gi, "").trim()),
      (t) => { const m = t.match(/\[[\s\S]*\]/); if (!m) throw 0; return JSON.parse(m[0]); },
      (t) => { const m = t.match(/\{[\s\S]*\}/); if (!m) throw 0; return JSON.parse(m[0]); },
    ]) try { return fn(txt); } catch (_) {}
    return null;
  };
  \<close>
  An exception inside a strategy (a syntax error of \<^verbatim>\<open>JSON.parse\<close>, or \<^verbatim>\<open>throw 0\<close>) is the
  value \<open>None\<close>.
\<close>

text \<open>Matching under the flag \<^verbatim>\<open>i\<close>: ASCII letters are compared without their case.\<close>

definition lower :: "nat \<Rightarrow> nat" where
  "lower c = (if 65 \<le> c \<and> c \<le> 90 then c + 32 else c)"

fun strip_pre_ci :: "jsstring \<Rightarrow> jsstring \<Rightarrow> jsstring option" where
  "strip_pre_ci [] s = Some s"
| "strip_pre_ci (p # ps) [] = None"
| "strip_pre_ci (p # ps) (c # cs) = (if lower p = lower c then strip_pre_ci ps cs else None)"

lemma length_strip_pre_ci: "strip_pre_ci p s = Some r \<Longrightarrow> length s = length p + length r"
  by (induction p s rule: strip_pre_ci.induct) (auto split: if_splits)

text \<open>
  \<^verbatim>\<open>t.replace(/```json|```/gi, "")\<close>: at each position the first alternative (three
  backquotes and \<^verbatim>\<open>json\<close>) is tried before the second (three backquotes); a match is
  removed and the scan continues behind it. The backquote is code unit 96.
\<close>

function strip_fences :: "jsstring \<Rightarrow> jsstring" where
  "strip_fences [] = []"
| "strip_fences (c # cs) =
     (case strip_pre_ci [96, 96, 96, 106, 115, 111, 110] (c # cs) of
        Some r \<Rightarrow> strip_fences r
      | None \<Rightarrow>
          (case strip_pre_ci [96, 96, 96] (c # cs) of
             Some r \<Rightarrow> strip_fences r
           | None \<Rightarrow> c # strip_fences cs))"
  by pat_completeness auto
termination
  by (relation "measure length") (auto split: if_splits dest!: length_strip_pre_ci)

text \<open>
  \<^verbatim>\<open>t.match(/\[[\s\S]*\]/)\<close> and \<^verbatim>\<open>t.match(/\{[\s\S]*\}/)\<close>. \<open>upto_last b s\<close> is the greedy
  \<^verbatim>\<open>[\s\S]*\<close> followed by the closing character: the longest prefix of \<open>s\<close> that ends
  with \<open>b\<close>. \<open>match_span a b t\<close> tries the positions of \<open>t\<close> from the left and
  returns the first match.
\<close>

fun upto_last :: "nat \<Rightarrow> jsstring \<Rightarrow> jsstring option" where
  "upto_last b [] = None"
| "upto_last b (x # xs) =
     (case upto_last b xs of
        Some m \<Rightarrow> Some (x # m)
      | None \<Rightarrow> if x = b then Some [x] else None)"

fun match_span :: "nat \<Rightarrow> nat \<Rightarrow> jsstring \<Rightarrow> jsstring option" where
  "match_span a b [] = None"
| "match_span a b (x # xs) =
     (if x = a then
        (case upto_last b xs of
           Some m \<Rightarrow> Some (x # m)
         | None \<Rightarrow> match_span a b xs)
      else match_span a b xs)"

definition strategies :: "(jsstring \<Rightarrow> json option) list" where
  "strategies =
     [\<lambda>t. JSON_parse (trim t),
      \<lambda>t. JSON_parse (trim (strip_fences t)),
      \<lambda>t. (case match_span 91 93 t of None \<Rightarrow> None | Some m \<Rightarrow> JSON_parse m),
      \<lambda>t. (case match_span 123 125 t of None \<Rightarrow> None | Some m \<Rightarrow> JSON_parse m)]"

text \<open>The loop: the first strategy that does not throw returns.\<close>

fun try_each :: "(jsstring \<Rightarrow> json option) list \<Rightarrow> jsstring \<Rightarrow> json option" where
  "try_each [] t = None"
| "try_each (fn # fns) t = (case fn t of Some v \<Rightarrow> Some v | None \<Rightarrow> try_each fns t)"

text \<open>
  \<open>parseJSON_try\<close> is the body without the final \<^verbatim>\<open>return null\<close>: \<open>Some v\<close> when a
  strategy returned \<open>v\<close>, \<open>None\<close> when the text is empty or every strategy threw.
\<close>

definition parseJSON_try :: "jsstring \<Rightarrow> json option" where
  "parseJSON_try txt = (if txt = [] then None else try_each strategies txt)"

definition parseJSON :: "jsstring \<Rightarrow> json" where
  "parseJSON txt = (case parseJSON_try txt of Some v \<Rightarrow> v | None \<Rightarrow> JNull)"

text \<open>The substring from the first \<open>a\<close> through the last \<open>b\<close> behind it.\<close>

definition first_to_last :: "nat \<Rightarrow> nat \<Rightarrow> jsstring \<Rightarrow> jsstring option" where
  "first_to_last a b t =
     (let r = dropWhile (\<lambda>c. c \<noteq> a) t in
      if r \<noteq> [] \<and> b \<in> set (tl r) then Some (rev (dropWhile (\<lambda>c. c \<noteq> b) (rev r))) else None)"

text \<open>JavaScript truthiness of a parsed value.\<close>

fun truthy :: "json \<Rightarrow> bool" where
  "truthy JNull = False"
| "truthy (JBool b) = b"
| "truthy (JNum x) = (x \<noteq> Fin 0)"
| "truthy (JStr s) = (s \<noteq> [])"
| "truthy (JArr xs) = True"
| "truthy (JObj kvs) = True"

section \<open>Serialization\<close>

text \<open>
  \<^verbatim>\<open>JSON.stringify(v)\<close> for a value \<open>v\<close> that \<^verbatim>\<open>JSON.parse\<close> returned: no white space is
  inserted, a Number that is not finite is written \<^verbatim>\<open>null\<close>, and a string is quoted with
  the escapes of \<^verbatim>\<open>QuoteJSONString\<close>: the two-character escapes of backspace, tab, line
  feed, form feed, carriage return, the double quote and the backslash, and
  \<^verbatim>\<open>\uXXXX\<close> with lower-case digits for the other code units below 32 and for a surrogate
  that is not part of a pair. The decimal text of a finite Number (\<^verbatim>\<open>Number::toString\<close>)
  is the parameter \<open>nt\<close>.
\<close>

definition is_high :: "nat \<Rightarrow> bool" where
  "is_high c \<longleftrightarrow> 55296 \<le> c \<and> c \<le> 56319"

definition is_low :: "nat \<Rightarrow> bool" where
  "is_low c \<longleftrightarrow> 56320 \<le> c \<and> c \<le> 57343"

definition hex_digit :: "nat \<Rightarrow> nat" where
  "hex_digit n = (if n < 10 then 48 + n else 87 + n)"

definition unicode_escape :: "nat \<Rightarrow> jsstring" where
  "unicode_escape c =
     [92, 117, hex_digit (c div 4096 mod 16), hex_digit (c div 256 mod 16),
      hex_digit (c div 16 mod 16), hex_digit (c mod 16)]"

definition escape_of :: "nat \<Rightarrow> nat option" where
  "escape_of c =
     (if c = 8 then Some 98
      else if c = 9 then Some 116
      else if c = 10 then Some 110
      else if c = 12 then Some 102
      else if c = 13 then Some 114
      else if c = 34 then Some 34
      else if c = 92 then Some 92
      else None)"

fun quote_chars :: "jsstring \<Rightarrow> jsstring" where
  "quote_chars [] = []"
| "quote_chars (c # cs) =
     (case escape_of c of
        Some e \<Rightarrow> [92, e] @ quote_chars cs
      | None \<Rightarrow>
          if c < 32 then unicode_escape c @ quote_chars cs
          else if is_high c then
            (case cs of
               [] \<Rightarrow> unicode_escape c
             | d # ds \<Rightarrow>
                 if is_low d then c # d # quote_chars ds else unicode_escape c @ quote_chars cs)
          else if is_low c then unicode_escape c @ quote_chars cs
          else c # quote_chars cs)"

fun stringify :: "(rat \<Rightarrow> jsstring) \<Rightarrow> json \<Rightarrow> jsstring"
  and stringify_elems :: "(rat \<Rightarrow> jsstring) \<Rightarrow> json list \<Rightarrow> jsstring"
  and stringify_members :: "(rat \<Rightarrow> jsstring) \<Rightarrow> (jsstring \<times> json) list \<Rightarrow> jsstring"
where
  "stringify nt JNull = [110, 117, 108, 108]"
| "stringify nt (JBool b) = (if b then [116, 114, 117, 101] else [102, 97, 108, 115, 101])"
| "stringify nt (JNum x) = (case x of Fin q \<Rightarrow> nt q | _ \<Rightarrow> [110, 117, 108, 108])"
| "stringify nt (JStr s) = 34 # quote_chars s @ [34]"
| "stringify nt (JArr xs) = 91 # stringify_elems nt xs @ [93]"
| "stringify nt (JObj kvs) = 123 # stringify_members nt kvs @ [125]"
| "stringify_elems nt [] = []"
| "stringify_elems nt [x] = stringify nt x"
| "stringify_elems nt (x # y # ys) = stringify nt x @ 44 # stringify_elems nt (y # ys)"
| "stringify_members nt [] = []"
| "stringify_members nt [(k, v)] = 34 # quote_chars k @ [34, 58] @ stringify nt v"
| "stringify_members nt ((k, v) # kv # kvs) =
     34 # quote_chars k @ [34, 58] @ stringify nt v @ 44 # stringify_members nt (kv # kvs)"

text \<open>
  \<open>numbers_ok nt v\<close>: every Number in \<open>v\<close> is finite, and \<^verbatim>\<open>JSON.parse\<close> reads its text
  \<open>nt q\<close> back as the same Number.
\<close>

fun numbers_ok :: "(rat \<Rightarrow> jsstring) \<Rightarrow> json \<Rightarrow> bool" where
  "numbers_ok nt (JNum x) = (case x of Fin q \<Rightarrow> parse_number (nt q) = Some (Fin q, []) | _ \<Rightarrow> False)"
| "numbers_ok nt (JArr xs) = list_all (numbers_ok nt) xs"
| "numbers_ok nt (JObj kvs) = list_all (\<lambda>kv. numbers_ok nt (snd kv)) kvs"
| "numbers_ok nt v = True"

text \<open>
  \<open>keys_ok v\<close>: no object in \<open>v\<close> has two properties of the same name, and the properties
  of every object are in the order of enumeration: a property whose name is an array index
  is preceded only by properties whose name is an array index that is not greater.
\<close>

definition key_before :: "jsstring \<Rightarrow> jsstring \<Rightarrow> bool" where
  "key_before k k' \<longleftrightarrow> (if is_index k' then is_index k \<and> digits_val k \<le> digits_val k' else True)"

fun keys_ok :: "json \<Rightarrow> bool" where
  "keys_ok (JArr xs) = list_all keys_ok xs"
| "keys_ok (JObj kvs) =
     (distinct (map fst kvs) \<and> sorted_wrt key_before (map fst kvs)
      \<and> list_all (\<lambda>kv. keys_ok (snd kv)) kvs)"
| "keys_ok v = True"

text \<open>What can follow a value inside a text: nothing, a comma or a closing bracket.\<close>

definition delimited :: "jsstring \<Rightarrow> bool" where
  "delimited r = (case r of [] \<Rightarrow> True | c # cs \<Rightarrow> c = 44 \<or> c = 93 \<or> c = 125)"

text \<open>The text \<open>r\<close> does not continue a run of digits.\<close>

definition no_digit_ahead :: "jsstring \<Rightarrow> bool" where
  "no_digit_ahead r = (case r of [] \<Rightarrow> True | c # cs \<Rightarrow> \<not> is_digit c)"

text \<open>
  The text \<^verbatim>\<open>Number::toString\<close> gives a Number whose value is an integer below \<open>10 ^ 21\<close>:
  its decimal digits, after a minus sign when it is negative.
\<close>

fun digits_of :: "nat \<Rightarrow> jsstring" where
  "digits_of n = (if n < 10 then [48 + n] else digits_of (n div 10) @ [48 + n mod 10])"

declare digits_of.simps [simp del]

definition integer_text :: "rat \<Rightarrow> jsstring" where
  "integer_text q = (if q < 0 then 45 # digits_of (nat \<lfloor>- q\<rfloor>) else digits_of (nat \<lfloor>q\<rfloor>))"

text \<open>The value of a property of an object.\<close>

definition field :: "json \<Rightarrow> jsstring \<Rightarrow> json option" where
  "field v k = (case v of JObj kvs \<Rightarrow> map_of kvs k | _ \<Rightarrow> None)"

section \<open>The application state and its handlers\<close>

text \<open>
  The component \<^verbatim>\<open>App\<close> keeps its state in React state variables. The record holds the
  variables the handlers below read or write; \<^verbatim>\<open>resumeName\<close>, \<^verbatim>\<open>dragOver\<close>, \<^verbatim>\<open>linkedin\<close>,
  \<^verbatim>\<open>email\<close>, \<^verbatim>\<open>jobType\<close>, \<^verbatim>\<open>query\<close>, \<^verbatim>\<open>busyMsg\<close> and \<^verbatim>\<open>copied\<close> only feed the prompts and
  the display and are left out. \<^verbatim>\<open>null\<close> in \<^verbatim>\<open>genId\<close>, \<^verbatim>\<open>showL\<close> and \<^verbatim>\<open>showT\<close> is
  \<open>None\<close>; \<^verbatim>\<open>genId\<close> is \<^verbatim>\<open>"l" + job.id\<close> or \<^verbatim>\<open>"t" + job.id\<close>, kept as the pair of the
  letter and the id. \<^verbatim>\<open>letters\<close> and \<^verbatim>\<open>tips\<close> are objects keyed by \<^verbatim>\<open>job.id\<close>.

  A listing of \<^verbatim>\<open>jobs\<close> is \<^verbatim>\<open>{ ...j, id: i + 1 }\<close>: the parsed element \<open>j\<close> with its
  \<^verbatim>\<open>id\<close> replaced by the position.
\<close>

datatype kind = CoverLetter | CvTips

record job =
  job_id :: nat
  listing :: json

record app =
  step :: nat
  resumeText :: jsstring
  fileErr :: jsstring
  profile :: json
  jobs :: "job list"
  letters :: "nat \<rightharpoonup> jsstring"
  tips :: "nat \<rightharpoonup> json"
  busy :: bool
  errMsg :: jsstring
  genId :: "(kind \<times> nat) option"
  showL :: "job option"
  showT :: "job option"

definition init :: app where
  "init = \<lparr>step = 0, resumeText = [], fileErr = [], profile = JNull, jobs = [],
            letters = Map.empty, tips = Map.empty, busy = False, errMsg = [],
            genId = None, showL = None, showT = None\<rparr>"

text \<open>
  An \<^verbatim>\<open>async\<close> handler runs up to its \<^verbatim>\<open>await\<close>, and its continuation runs when the
  awaited promise settles. A handler is therefore a pair of functions: the first returns
  the new state and the continuations it leaves pending, the second (\<open>_resume\<close>) takes
  the state at the time the promise settles and its outcome. A pending continuation keeps
  the values its closure captured: \<^verbatim>\<open>cleaned\<close> for \<^verbatim>\<open>analyze\<close>, \<^verbatim>\<open>job\<close> for \<^verbatim>\<open>getLetter\<close>
  and \<^verbatim>\<open>getTips\<close>. \<open>PRead\<close> awaits the text extraction of a file; the other four await
  \<^verbatim>\<open>ask\<close>, the call of the completion service. The prompt is not modelled.
\<close>

datatype pending = PRead | PAnalyze jsstring | PSearch | PLetter job | PTips job

datatype outcome = Resolved jsstring | Rejected jsstring


text \<open>
  \<^verbatim>\<open>
  const readFile = async (file) => {
    setFErr(""); setRT(""); setRN(file.name);
    setBusy(true); setBMsg("Reading file...");
    try {
      const ext = file.name.split(".").pop().toLowerCase();
      let txt = "";
      if      (ext === "pdf")               txt = await readPDF(file);
      else if (ext === "docx" || ext === "doc") txt = await readDOCX(file);
      else if (ext === "txt")               txt = await file.text();
      else { setFErr("Use PDF, DOCX, or TXT."); setBusy(false); return; }
      if (!txt || txt.trim().length < 30) { setFErr("Could not read text from file."); setBusy(false); return; }
      setRT(txt);
    } catch (e) { setFErr("Error: " + e.message); }
    setBusy(false);
  };
  \<close>
  The argument \<open>ext\<close> is the lower-cased extension of the file name.
\<close>

definition readFile :: "app \<Rightarrow> jsstring \<Rightarrow> app \<times> pending list" where
  "readFile st ext =
     (let st1 = st\<lparr>fileErr := [], resumeText := [], busy := True\<rparr> in
      if ext = str ''pdf'' \<or> ext = str ''docx'' \<or> ext = str ''doc'' \<or> ext = str ''txt''
      then (st1, [PRead])
      else (st1\<lparr>fileErr := str ''Use PDF, DOCX, or TXT.'', busy := False\<rparr>, []))"

definition readFile_resume :: "app \<Rightarrow> outcome \<Rightarrow> app" where
  "readFile_resume st out =
     (case out of
        Resolved txt \<Rightarrow>
          if txt = [] \<or> length (trim txt) < 30
          then st\<lparr>fileErr := str ''Could not read text from file.'', busy := False\<rparr>
          else st\<lparr>resumeText := txt, busy := False\<rparr>
      | Rejected msg \<Rightarrow> st\<lparr>fileErr := str ''Error: '' @ msg, busy := False\<rparr>)"

text \<open>
  \<^verbatim>\<open>
  const analyze = async () => {
    setErr("");
    setBusy(true); setBMsg("Analyzing resume...");
    try {
      const cleaned = resumeText.replace(...)...slice(0, 3000);
      const raw = await ask(`Extract info from this resume as JSON. ...\n\n${cleaned}`, ..., 800);
      const p = parseJSON(raw) || {
        name: "Candidate", skills: [], experience_years: 0,
        education: "N/A", current_role: "Professional",
        industries: [], summary: cleaned.slice(0, 200),
      };
      setProfile(p);
      setStep(2);
    } catch (e) {
      setErr("Analysis error: " + e.message);
    }
    setBusy(false);
  };
  \<close>
\<close>

definition default_profile :: "jsstring \<Rightarrow> json" where
  "default_profile cl =
     JObj [(str ''name'', JStr (str ''Candidate'')),
           (str ''skills'', JArr []),
           (str ''experience_years'', JNum (Fin 0)),
           (str ''education'', JStr (str ''N/A'')),
           (str ''current_role'', JStr (str ''Professional'')),
           (str ''industries'', JArr []),
           (str ''summary'', JStr (take 200 cl))]"

definition analyze :: "app \<Rightarrow> app \<times> pending list" where
  "analyze st = (st\<lparr>errMsg := [], busy := True\<rparr>, [PAnalyze (cleaned (resumeText st))])"

definition analyze_resume :: "app \<Rightarrow> jsstring \<Rightarrow> outcome \<Rightarrow> app" where
  "analyze_resume st cl out =
     (case out of
        Resolved raw \<Rightarrow>
          (let p = (if truthy (parseJSON raw) then parseJSON raw else default_profile cl)
           in st\<lparr>profile := p, step := 2, busy := False\<rparr>)
      | Rejected msg \<Rightarrow> st\<lparr>errMsg := str ''Analysis error: '' @ msg, busy := False\<rparr>)"

text \<open>
  \<^verbatim>\<open>
  const findJobs = async () => {
    setErr("");
    setBusy(true); setBMsg("Finding matching jobs worldwide...");
    try {
      ...
      const raw = await ask(`Generate 8 realistic job listings ...`, ..., 2500);
      const parsed = parseJSON(raw);
      if (parsed && Array.isArray(parsed) && parsed.length > 0) {
        setJobs(parsed.map((j, i) => ({ ...j, id: i + 1 })));
        setStep(3);
      } else {
        setErr("Could not load jobs. Please try again.");
      }
    } catch (e) { setErr("Search error: " + e.message); }
    setBusy(false);
  };
  \<close>
\<close>

definition number_jobs :: "json list \<Rightarrow> job list" where
  "number_jobs xs = map (\<lambda>(i, j). \<lparr>job_id = i + 1, listing = j\<rparr>) (enumerate 0 xs)"

definition findJobs :: "app \<Rightarrow> app \<times> pending list" where
  "findJobs st = (st\<lparr>errMsg := [], busy := True\<rparr>, [PSearch])"

definition findJobs_resume :: "app \<Rightarrow> outcome \<Rightarrow> app" where
  "findJobs_resume st out =
     (case out of
        Resolved raw \<Rightarrow>
          (case parseJSON raw of
             JArr (x # xs) \<Rightarrow> st\<lparr>jobs := number_jobs (x # xs), step := 3, busy := False\<rparr>
           | _ \<Rightarrow> st\<lparr>errMsg := str ''Could not load jobs. Please try again.'', busy := False\<rparr>)
      | Rejected msg \<Rightarrow> st\<lparr>errMsg := str ''Search error: '' @ msg, busy := False\<rparr>)"

text \<open>
  \<^verbatim>\<open>
  const getLetter = async (job) => {
    if (letters[job.id]) { setShowL(job); return; }
    setGenId("l" + job.id);
    try {
      const txt = await ask(`Write a cover letter for: ...`, ..., 900);
      setLetters((p) => ({ ...p, [job.id]: txt }));
      setShowL(job);
    } catch (e) { alert("Error: " + e.message); }
    setGenId(null);
  };
  \<close>
  \<^verbatim>\<open>letters[job.id]\<close> is truthy when the key is present with a non-empty string.
\<close>

definition cached_letter :: "app \<Rightarrow> nat \<Rightarrow> bool" where
  "cached_letter st i = (case letters st i of None \<Rightarrow> False | Some t \<Rightarrow> t \<noteq> [])"

definition getLetter :: "app \<Rightarrow> job \<Rightarrow> app \<times> pending list" where
  "getLetter st job =
     (if cached_letter st (job_id job) then (st\<lparr>showL := Some job\<rparr>, [])
      else (st\<lparr>genId := Some (CoverLetter, job_id job)\<rparr>, [PLetter job]))"

definition getLetter_resume :: "app \<Rightarrow> job \<Rightarrow> outcome \<Rightarrow> app" where
  "getLetter_resume st job out =
     (case out of
        Resolved txt \<Rightarrow>
          st\<lparr>letters := (letters st)(job_id job \<mapsto> txt), showL := Some job, genId := None\<rparr>
      | Rejected msg \<Rightarrow> st\<lparr>genId := None\<rparr>)"

text \<open>
  \<^verbatim>\<open>
  const getTips = async (job) => {
    if (tips[job.id]) { setShowT(job); return; }
    setGenId("t" + job.id);
    try {
      const raw = await ask(`Career coach: analyze candidate vs job. ...`, ..., 900);
      const parsed = parseJSON(raw);
      if (parsed) { setTips((p) => ({ ...p, [job.id]: parsed })); setShowT(job); }
      else alert("Could not parse tips.");
    } catch (e) { alert("Error: " + e.message); }
    setGenId(null);
  };
  \<close>
\<close>

definition cached_tips :: "app \<Rightarrow> nat \<Rightarrow> bool" where
  "cached_tips st i = (case tips st i of None \<Rightarrow> False | Some v \<Rightarrow> truthy v)"

definition getTips :: "app \<Rightarrow> job \<Rightarrow> app \<times> pending list" where
  "getTips st job =
     (if cached_tips st (job_id job) then (st\<lparr>showT := Some job\<rparr>, [])
      else (st\<lparr>genId := Some (CvTips, job_id job)\<rparr>, [PTips job]))"

definition getTips_resume :: "app \<Rightarrow> job \<Rightarrow> outcome \<Rightarrow> app" where
  "getTips_resume st job out =
     (case out of
        Resolved raw \<Rightarrow>
          (if truthy (parseJSON raw)
           then st\<lparr>tips := (tips st)(job_id job \<mapsto> parseJSON raw), showT := Some job, genId := None\<rparr>
           else st\<lparr>genId := None\<rparr>)
      | Rejected msg \<Rightarrow> st\<lparr>genId := None\<rparr>)"

section \<open>The user interface as a transition system\<close>

text \<open>
  A configuration is the state and the list of pending continuations. An event is a user
  action on a control of the rendered page, or the settling of a pending promise.

  What is rendered decides which actions exist:
  \<^item> the file input, the drop zone and the button \<^verbatim>\<open>Continue\<close> only at step 0, the button
    \<^verbatim>\<open>Analyze Resume\<close> only at step 1, \<^verbatim>\<open>Search Real Jobs\<close> only at step 2, the cards of the
    listings only at step 3; each of the steps 1 to 3 has a button \<^verbatim>\<open>Back\<close>;
  \<^item> the progress bar has one item for each of the four steps, with
    \<^verbatim>\<open>onClick={() => i < step && setStep(i)}\<close>;
  \<^item> the modal of the letter is rendered while \<^verbatim>\<open>showL && letters[showL.id]\<close>, the modal
    of the tips while \<^verbatim>\<open>showT && tips[showT.id]\<close>; closing one is \<^verbatim>\<open>setShowL(null)\<close>,
    \<^verbatim>\<open>setShowT(null)\<close>.

  No handler tests \<^verbatim>\<open>busy\<close> or \<^verbatim>\<open>genId\<close>, and no button is disabled. The overlay drawn
  while \<^verbatim>\<open>busy\<close> is set, the overlay drawn on the card of the listing that \<^verbatim>\<open>genId\<close>
  names, and the modals are layers above the page: they keep the pointer from what lies
  under them, but the buttons stay mounted and are reached from the keyboard. The
  transition system therefore has an action for every control that is rendered, whatever
  layer is drawn above it.
\<close>

datatype event =
    SelectFile jsstring
  | Continue
  | Progress nat
  | Back
  | ClickAnalyze
  | ClickFindJobs
  | ClickLetter job
  | ClickTips job
  | CloseLetter
  | CloseTips
  | Settle nat outcome

definition letter_modal :: "app \<Rightarrow> bool" where
  "letter_modal st = (case showL st of None \<Rightarrow> False | Some j \<Rightarrow> cached_letter st (job_id j))"

definition tips_modal :: "app \<Rightarrow> bool" where
  "tips_modal st = (case showT st of None \<Rightarrow> False | Some j \<Rightarrow> cached_tips st (job_id j))"

definition resume :: "app \<Rightarrow> pending \<Rightarrow> outcome \<Rightarrow> app" where
  "resume st p out =
     (case p of
        PRead \<Rightarrow> readFile_resume st out
      | PAnalyze cl \<Rightarrow> analyze_resume st cl out
      | PSearch \<Rightarrow> findJobs_resume st out
      | PLetter job \<Rightarrow> getLetter_resume st job out
      | PTips job \<Rightarrow> getTips_resume st job out)"

text \<open>The handler behind each control of the page, when the control is rendered.\<close>

definition page :: "app \<Rightarrow> event \<Rightarrow> app \<times> pending list" where
  "page st ev =
     (case ev of
        SelectFile ext \<Rightarrow> if step st = 0 then readFile st ext else (st, [])
      | Continue \<Rightarrow> if step st = 0 \<and> resumeText st \<noteq> [] then (st\<lparr>step := 1\<rparr>, []) else (st, [])
      | Progress i \<Rightarrow> if i < step st then (st\<lparr>step := i\<rparr>, []) else (st, [])
      | Back \<Rightarrow> if 1 \<le> step st \<and> step st \<le> 3 then (st\<lparr>step := step st - 1\<rparr>, []) else (st, [])
      | ClickAnalyze \<Rightarrow> if step st = 1 then analyze st else (st, [])
      | ClickFindJobs \<Rightarrow> if step st = 2 then findJobs st else (st, [])
      | ClickLetter job \<Rightarrow>
          if step st = 3 \<and> job \<in> set (jobs st) then getLetter st job else (st, [])
      | ClickTips job \<Rightarrow>
          if step st = 3 \<and> job \<in> set (jobs st) then getTips st job else (st, [])
      | _ \<Rightarrow> (st, []))"

text \<open>A user action: the close control of a modal that is rendered, or a control of the page.\<close>

definition user :: "app \<Rightarrow> event \<Rightarrow> app \<times> pending list" where
  "user st ev =
     (case ev of
        CloseLetter \<Rightarrow> if letter_modal st then (st\<lparr>showL := None\<rparr>, []) else (st, [])
      | CloseTips \<Rightarrow> if tips_modal st then (st\<lparr>showT := None\<rparr>, []) else (st, [])
      | _ \<Rightarrow> page st ev)"

text \<open>
  \<open>Settle i out\<close> settles the \<open>i\<close>-th pending promise with the outcome \<open>out\<close> and runs
  its continuation; every other event is a user action.
\<close>

fun fire :: "app \<times> pending list \<Rightarrow> event \<Rightarrow> app \<times> pending list" where
  "fire (st, ps) (Settle i out) =
     (if i < length ps then (resume st (ps ! i) out, take i ps @ drop (Suc i) ps) else (st, ps))"
| "fire (st, ps) ev = (case user st ev of (st', new) \<Rightarrow> (st', ps @ new))"

definition run :: "event list \<Rightarrow> app \<times> pending list" where
  "run evs = foldl fire (init, []) evs"

text \<open>
  The handlers \<^verbatim>\<open>readFile\<close>, \<^verbatim>\<open>analyze\<close> and \<^verbatim>\<open>findJobs\<close> set \<^verbatim>\<open>busy\<close> before they await
  and clear it when they resume; \<open>stage_of\<close> is the step at which the control of such
  a handler is rendered. \<open>busy_inv\<close> says that at most one of their continuations is
  pending, and that while one is, \<^verbatim>\<open>busy\<close> is set and the step is the one at which it was
  started.
\<close>

fun sets_busy :: "pending \<Rightarrow> bool" where
  "sets_busy PRead = True"
| "sets_busy (PAnalyze cl) = True"
| "sets_busy PSearch = True"
| "sets_busy (PLetter job) = False"
| "sets_busy (PTips job) = False"

fun stage_of :: "pending \<Rightarrow> nat" where
  "stage_of PRead = 0"
| "stage_of (PAnalyze cl) = 1"
| "stage_of PSearch = 2"
| "stage_of (PLetter job) = 3"
| "stage_of (PTips job) = 3"

definition busy_inv :: "app \<times> pending list \<Rightarrow> bool" where
  "busy_inv c =
     (case filter sets_busy (snd c) of
        [] \<Rightarrow> True
      | [p] \<Rightarrow> busy (fst c) \<and> step (fst c) = stage_of p
      | _ \<Rightarrow> False)"

text \<open>
  \<open>waits c evs\<close>: in the session \<open>evs\<close> from the configuration \<open>c\<close> the user takes no
  action while \<^verbatim>\<open>busy\<close> is set, that is, while the overlay with the spinner is shown.
\<close>

fun is_action :: "event \<Rightarrow> bool" where
  "is_action (Settle i out) = False"
| "is_action ev = True"

fun waits :: "app \<times> pending list \<Rightarrow> event list \<Rightarrow> bool" where
  "waits c [] = True"
| "waits c (ev # evs) = (\<not> (is_action ev \<and> busy (fst c)) \<and> waits (fire c ev) evs)"

section \<open>Sample data\<close>

text \<open>
  A text of a resume, two answers of the completion service to the search, and the listings
  \<^verbatim>\<open>findJobs\<close> makes of them. \<open>to_step3\<close> is a session from the initial state to the list
  of the jobs: a text file is read, the resume is analyzed and the first search answers.
\<close>

definition resume_txt :: jsstring where
  "resume_txt = str ''Jane Doe, engineer, Python, SQL, 3 years''"

text \<open>The letter \<open>a\<close>, 28 spaces and the letter \<open>b\<close>: 30 code units.\<close>

definition padded_txt :: jsstring where
  "padded_txt = str ''a                            b''"

definition search_A :: jsstring where
  \<open>search_A = str ''[{"title": "A"}, {"title": "B"}]''\<close>

definition search_B :: jsstring where
  \<open>search_B = str ''[{"title": "C"}]''\<close>

definition job_A1 :: job where
  "job_A1 = \<lparr>job_id = 1, listing = JObj [(str ''title'', JStr (str ''A''))]\<rparr>"

definition job_A2 :: job where
  "job_A2 = \<lparr>job_id = 2, listing = JObj [(str ''title'', JStr (str ''B''))]\<rparr>"

definition job_B1 :: job where
  "job_B1 = \<lparr>job_id = 1, listing = JObj [(str ''title'', JStr (str ''C''))]\<rparr>"

definition to_step3 :: "event list" where
  "to_step3 =
     [SelectFile (str ''txt''), Settle 0 (Resolved resume_txt), Continue,
      ClickAnalyze, Settle 0 (Resolved (str ''{}'')),
      ClickFindJobs, Settle 0 (Resolved search_A)]"

section \<open>Evaluation\<close>

lemma bitlen_0: "bitlen 0 = 0"
  by (simp add: bitlen.simps)

lemma bitlen_pos: "0 < n \<Longrightarrow> bitlen n = bitlen (n div 2) + 1"
  by (subst bitlen.simps) simp

lemma bitlen_1: "bitlen (Suc 0) = 1"
  by (simp add: bitlen_pos bitlen_0)

lemma bitlen_bounds: "2 ^ k \<le> n \<Longrightarrow> n < 2 ^ Suc k \<Longrightarrow> bitlen n = Suc k"
proof (induction k arbitrary: n)
  case 0
  then have "n = 1" by simp
  then show ?case by (simp add: bitlen_pos bitlen_0)
next
  case (Suc k)
  from Suc.prems have "2 ^ k \<le> n div 2" "n div 2 < 2 ^ Suc k" "0 < n"
    by simp_all
  with Suc.IH [of "n div 2"] show ?case
    by (simp add: bitlen_pos)
qed

lemma digits_of_digit: "n < 10 \<Longrightarrow> digits_of n = [48 + n]"
  by (simp add: digits_of.simps)

lemma digits_of_more: "10 \<le> n \<Longrightarrow> digits_of n = digits_of (n div 10) @ [48 + n mod 10]"
  by (subst digits_of.simps) simp

lemmas json_eval =
  JSON_parse_def str_def skip_ws_def is_json_ws_def parse_number_def parse_int_def
  parse_frac_def parse_exp_def is_digit_def digits_val_def Number_of_literal_def
  nearest_double_def round_half_even_def bitlen_0 bitlen_1 bitlen_pos obj_set_def is_index_def
  hex4_def hex_val_def unescape_def

lemmas cascade_eval =
  parseJSON_def parseJSON_try_def strategies_def trim_def is_space_def lower_def

lemmas app_eval =
  init_def user_def page_def resume_def readFile_def readFile_resume_def analyze_def
  analyze_resume_def findJobs_def findJobs_resume_def getLetter_def getLetter_resume_def
  getTips_def getTips_resume_def cached_letter_def cached_tips_def
  letter_modal_def tips_modal_def number_jobs_def cleaned_def strip_unsafe_def safe_char_def

lemmas sample_eval =
  resume_txt_def padded_txt_def search_A_def search_B_def job_A1_def job_A2_def job_B1_def

lemma run_append: "run (xs @ ys) = foldl fire (run xs) ys"
  by (simp add: run_def)

lemma run_to_step3:
  "run to_step3 =
     (init\<lparr>step := 3, resumeText := resume_txt, profile := JObj [], jobs := [job_A1, job_A2]\<rparr>, [])"
  by (simp add: run_def to_step3_def app_eval cascade_eval json_eval sample_eval)

section \<open>Properties\<close>

subsection \<open>Properties of the sanitizer\<close>



















subsection \<open>The artifact caches\<close>

text \<open>
  C1. For every listing and both kinds of artifact: when the cache holds a
  non-empty cover letter (for the tips: a truthy value) under the id of the listing, a
  request for that listing returns without a call of the completion service, leaves the
  cache unchanged and shows the stored artifact; and when a first request is answered
  with a non-empty letter (a text that parses to a truthy value), that answer is stored
  and a second request for the same listing calls the service no more.

  The stronger sentence of the specification, for every stored artifact, fails for the letters: an empty answer is stored under the
  id, and \<^verbatim>\<open>letters[job.id]\<close> is then falsy, so the next request calls the service again
  (\<open>empty_letter_counterexample\<close>).
\<close>

theorem cached_artifact_is_returned:
  "(letters st (job_id job) = Some a \<and> a \<noteq> [] \<longrightarrow>
      getLetter st job = (st\<lparr>showL := Some job\<rparr>, []))
   \<and> (tips st (job_id job) = Some v \<and> truthy v \<longrightarrow>
      getTips st job = (st\<lparr>showT := Some job\<rparr>, []))
   \<and> (txt \<noteq> [] \<longrightarrow>
      (let st1 = getLetter_resume (fst (getLetter st job)) job (Resolved txt)
       in letters st1 (job_id job) = Some txt \<and> getLetter st1 job = (st1\<lparr>showL := Some job\<rparr>, [])))
   \<and> (truthy (parseJSON raw) \<longrightarrow>
      (let st1 = getTips_resume (fst (getTips st job)) job (Resolved raw)
       in tips st1 (job_id job) = Some (parseJSON raw) \<and> getTips st1 job = (st1\<lparr>showT := Some job\<rparr>, [])))"
  by (simp add: getLetter_def getTips_def getLetter_resume_def getTips_resume_def
      cached_letter_def cached_tips_def Let_def)

theorem cached_artifact_is_returned_witness:
  "getLetter (init\<lparr>letters := [1 \<mapsto> str ''Dear A'']\<rparr>) job_A1
     = (init\<lparr>letters := [1 \<mapsto> str ''Dear A''], showL := Some job_A1\<rparr>, [])
   \<and> getTips (init\<lparr>tips := [1 \<mapsto> JObj []]\<rparr>) job_A1
     = (init\<lparr>tips := [1 \<mapsto> JObj []], showT := Some job_A1\<rparr>, [])
   \<and> snd (getLetter init job_A1) = [PLetter job_A1]
   \<and> letters (getLetter_resume (fst (getLetter init job_A1)) job_A1 (Resolved (str ''Dear A''))) 1
     = Some (str ''Dear A'')
   \<and> snd (getLetter (getLetter_resume (fst (getLetter init job_A1)) job_A1 (Resolved (str ''Dear A''))) job_A1) = []
   \<and> snd (getTips (getTips_resume (fst (getTips init job_A1)) job_A1 (Resolved (str ''{}''))) job_A1) = []"
proof -
  have tr: "truthy (parseJSON (str ''{}''))"
    by (simp add: cascade_eval json_eval)
  have ne: "str ''Dear A'' \<noteq> []"
    by (simp add: str_def)
  have id1: "job_id job_A1 = 1"
    by (simp add: job_A1_def)
  have t: "getLetter (init\<lparr>letters := [1 \<mapsto> str ''Dear A'']\<rparr>) job_A1
     = (init\<lparr>letters := [1 \<mapsto> str ''Dear A''], showL := Some job_A1\<rparr>, [])"
    using cached_artifact_is_returned
      [of "init\<lparr>letters := [1 \<mapsto> str ''Dear A'']\<rparr>" job_A1 "str ''Dear A''"] ne id1
    by simp
  have t': "getTips (init\<lparr>tips := [1 \<mapsto> JObj []]\<rparr>) job_A1
     = (init\<lparr>tips := [1 \<mapsto> JObj []], showT := Some job_A1\<rparr>, [])"
    using cached_artifact_is_returned
      [of "init\<lparr>tips := [1 \<mapsto> JObj []]\<rparr>" job_A1 _ "JObj []"] id1
    by simp
  note u = cached_artifact_is_returned [of init job_A1 _ _ "str ''Dear A''" "str ''{}''"]
  have s: "snd (getLetter init job_A1) = [PLetter job_A1]"
    by (simp add: getLetter_def cached_letter_def init_def)
  show ?thesis
    using t t' s u tr ne id1
    by (simp add: Let_def)
qed

theorem empty_letter_counterexample:
  "letters (fst (run (to_step3 @ [ClickLetter job_A1, Settle 0 (Resolved [])]))) 1 = Some []
   \<and> snd (run (to_step3 @ [ClickLetter job_A1, Settle 0 (Resolved [])])) = []
   \<and> snd (run (to_step3 @ [ClickLetter job_A1, Settle 0 (Resolved []), ClickLetter job_A1]))
       = [PLetter job_A1]"
  by (simp add: run_append run_to_step3 app_eval job_A1_def)

subsection \<open>Requests in flight\<close>






subsection \<open>The minimum length of the text\<close>






subsection \<open>The default profile\<close>

text \<open>
  C7. For every answer to the profile extraction on which all strategies of the parser
  fail, the continuation of \<^verbatim>\<open>analyze\<close> stores the default profile built from the
  sanitized text (name \<^verbatim>\<open>Candidate\<close>, no skills, \<^verbatim>\<open>experience_years\<close> 0, as summary the
  first 200 code units of the sanitized text) and sets the step to 2 (Profile).
\<close>

theorem parse_failure_gives_default_profile:
  "parseJSON_try raw = None \<longrightarrow>
   (let cl = cleaned (resumeText st); st2 = resume st' (PAnalyze cl) (Resolved raw) in
      snd (analyze st) = [PAnalyze cl]
      \<and> step st2 = 2 \<and> \<not> busy st2
      \<and> profile st2 = default_profile cl
      \<and> field (profile st2) (str ''name'') = Some (JStr (str ''Candidate''))
      \<and> field (profile st2) (str ''skills'') = Some (JArr [])
      \<and> field (profile st2) (str ''experience_years'') = Some (JNum (Fin 0))
      \<and> field (profile st2) (str ''summary'') = Some (JStr (take 200 cl))
      \<and> prefix (take 200 cl) cl)"
proof -
  have f: "field (default_profile cl) (str ''name'') = Some (JStr (str ''Candidate''))"
    "field (default_profile cl) (str ''skills'') = Some (JArr [])"
    "field (default_profile cl) (str ''experience_years'') = Some (JNum (Fin 0))"
    "field (default_profile cl) (str ''summary'') = Some (JStr (take 200 cl))" for cl
    by (simp_all add: field_def default_profile_def str_def)
  show ?thesis
    by (simp add: Let_def analyze_def resume_def analyze_resume_def parseJSON_def f take_is_prefix)
qed

theorem parse_failure_gives_default_profile_witness:
  "parseJSON_try (str ''I cannot read this resume.'') = None
   \<and> step (resume (fst (analyze (init\<lparr>step := 1, resumeText := resume_txt\<rparr>)))
         (PAnalyze (cleaned resume_txt)) (Resolved (str ''I cannot read this resume.''))) = 2
   \<and> profile (resume (fst (analyze (init\<lparr>step := 1, resumeText := resume_txt\<rparr>)))
         (PAnalyze (cleaned resume_txt)) (Resolved (str ''I cannot read this resume.'')))
       = default_profile (cleaned resume_txt)"
proof -
  have n: "parseJSON_try (str ''I cannot read this resume.'') = None"
    by (simp add: cascade_eval json_eval)
  have r: "resumeText (init\<lparr>step := 1, resumeText := resume_txt\<rparr>) = resume_txt"
    by simp
  from parse_failure_gives_default_profile
    [of "str ''I cannot read this resume.''" "init\<lparr>step := 1, resumeText := resume_txt\<rparr>"
        "fst (analyze (init\<lparr>step := 1, resumeText := resume_txt\<rparr>))", unfolded Let_def r] n
  show ?thesis by simp
qed

subsection \<open>A new search\<close>

text \<open>
  C9. \<^verbatim>\<open>findJobs\<close> and its continuation leave both artifact caches as they are:
  after a search the letters and tips of the previous listings are still stored under
  their ids.

  The stronger sentence of the specification fails (\<open>stale_artifact_counterexample\<close>): the letter of
  the old listing 1 is still cached after the search, under the id of the new listing 1.
\<close>

theorem search_keeps_artifact_caches:
  "letters (fst (findJobs st)) = letters st \<and> tips (fst (findJobs st)) = tips st
   \<and> letters (resume st PSearch out) = letters st \<and> tips (resume st PSearch out) = tips st"
  by (simp add: findJobs_def resume_def findJobs_resume_def
      split: outcome.split json.split list.split)

theorem stale_artifact_counterexample:
  "jobs (fst (run (to_step3 @ [ClickLetter job_A1, Settle 0 (Resolved (str ''Dear A'')),
       CloseLetter, Back, ClickFindJobs, Settle 0 (Resolved search_B)]))) = [job_B1]
   \<and> letters (fst (run (to_step3 @ [ClickLetter job_A1, Settle 0 (Resolved (str ''Dear A'')),
       CloseLetter, Back, ClickFindJobs, Settle 0 (Resolved search_B)]))) 1 = Some (str ''Dear A'')
   \<and> step (fst (run (to_step3 @ [ClickLetter job_A1, Settle 0 (Resolved (str ''Dear A'')),
       CloseLetter, Back, ClickFindJobs, Settle 0 (Resolved search_B)]))) = 3"
  by (simp add: run_append run_to_step3 app_eval cascade_eval json_eval sample_eval)

theorem search_keeps_artifact_caches_witness:
  "letters (resume (init\<lparr>letters := [1 \<mapsto> str ''Dear A'']\<rparr>) PSearch (Resolved search_B)) 1
     = Some (str ''Dear A'')
   \<and> jobs (resume (init\<lparr>letters := [1 \<mapsto> str ''Dear A'']\<rparr>) PSearch (Resolved search_B)) = [job_B1]"
proof -
  have "jobs (resume (init\<lparr>letters := [1 \<mapsto> str ''Dear A'']\<rparr>) PSearch (Resolved search_B)) = [job_B1]"
    by (simp add: app_eval cascade_eval json_eval sample_eval)
  then show ?thesis
    using search_keeps_artifact_caches [of "init\<lparr>letters := [1 \<mapsto> str ''Dear A'']\<rparr>" "Resolved search_B"]
    by simp
qed

text \<open>
  C10. The continuation of \<^verbatim>\<open>getLetter\<close> stores every answer, and the
  continuation of \<^verbatim>\<open>getTips\<close> every answer that parses to a truthy value, under the id of
  its listing in the cache of the state in which it runs, whatever listings that state
  holds: there is no check for a stale result.

  The stronger sentence of the specification fails (\<open>late_result_counterexample\<close>): a letter that
  arrives after the search replaced the listings is written into the cache.
\<close>

theorem late_result_is_stored:
  "letters (resume st (PLetter job) (Resolved txt)) = (letters st)(job_id job \<mapsto> txt)
   \<and> (truthy (parseJSON raw) \<longrightarrow>
        tips (resume st (PTips job) (Resolved raw)) = (tips st)(job_id job \<mapsto> parseJSON raw))"
  by (simp add: resume_def getLetter_resume_def getTips_resume_def)

theorem late_result_counterexample:
  "jobs (fst (run (to_step3 @ [ClickLetter job_A1, Back, ClickFindJobs,
       Settle 1 (Resolved search_B)]))) = [job_B1]
   \<and> snd (run (to_step3 @ [ClickLetter job_A1, Back, ClickFindJobs,
       Settle 1 (Resolved search_B)])) = [PLetter job_A1]
   \<and> letters (fst (run (to_step3 @ [ClickLetter job_A1, Back, ClickFindJobs,
       Settle 1 (Resolved search_B), Settle 0 (Resolved (str ''Dear A''))]))) 1 = Some (str ''Dear A'')
   \<and> jobs (fst (run (to_step3 @ [ClickLetter job_A1, Back, ClickFindJobs,
       Settle 1 (Resolved search_B), Settle 0 (Resolved (str ''Dear A''))]))) = [job_B1]"
  by (simp add: run_append run_to_step3 app_eval cascade_eval json_eval sample_eval)

theorem late_result_is_stored_witness:
  "letters (resume (init\<lparr>jobs := [job_B1]\<rparr>) (PLetter job_A1) (Resolved (str ''Dear A''))) 1
     = Some (str ''Dear A'')
   \<and> tips (resume (init\<lparr>jobs := [job_B1]\<rparr>) (PTips job_A1) (Resolved (str ''{}''))) 1 = Some (JObj [])"
proof -
  have p: "parseJSON (str ''{}'') = JObj []"
    by (simp add: cascade_eval json_eval)
  have id1: "job_id job_A1 = 1"
    by (simp add: job_A1_def)
  from late_result_is_stored [of "init\<lparr>jobs := [job_B1]\<rparr>" job_A1 "str ''Dear A''" "str ''{}''"] p id1
  show ?thesis by simp
qed

subsection \<open>The regular expressions of the parser\<close>

lemma upto_last_None: "upto_last b s = None \<longleftrightarrow> b \<notin> set s"
  by (induction s) (auto split: option.splits)

lemma upto_last_Some:
  "b \<in> set s \<Longrightarrow> upto_last b s = Some (rev (dropWhile (\<lambda>c. c \<noteq> b) (rev s)))"
proof (induction s)
  case Nil
  then show ?case by simp
next
  case (Cons x xs)
  show ?case
  proof (cases "b \<in> set xs")
    case True
    then have "dropWhile (\<lambda>c. c \<noteq> b) (rev xs @ [x]) = dropWhile (\<lambda>c. c \<noteq> b) (rev xs) @ [x]"
      by simp
    with True Cons.IH show ?thesis by simp
  next
    case False
    with Cons.prems have xb: "x = b" by simp
    from False have u: "upto_last b xs = None" by (simp add: upto_last_None)
    from False have "dropWhile (\<lambda>c. c \<noteq> b) (rev xs @ [x]) = dropWhile (\<lambda>c. c \<noteq> b) [x]"
      by (intro dropWhile_append2) auto
    with u xb show ?thesis by simp
  qed
qed

lemma match_span_first_to_last: "a \<noteq> b \<Longrightarrow> match_span a b t = first_to_last a b t"
proof (induction t)
  case Nil
  then show ?case by (simp add: first_to_last_def)
next
  case (Cons x xs)
  show ?case
  proof (cases "x = a")
    case False
    with Cons show ?thesis by (simp add: first_to_last_def)
  next
    case True
    show ?thesis
    proof (cases "b \<in> set xs")
      case bin: True
      then have "dropWhile (\<lambda>c. c \<noteq> b) (rev xs @ [a]) = dropWhile (\<lambda>c. c \<noteq> b) (rev xs) @ [a]"
        by simp
      with True bin show ?thesis
        by (simp add: first_to_last_def upto_last_Some)
    next
      case bout: False
      then have u: "upto_last b xs = None" by (simp add: upto_last_None)
      have "b \<notin> set (tl (dropWhile (\<lambda>c. c \<noteq> a) xs))"
        using bout by (metis list.sel(2) list.set_sel(2) set_dropWhileD)
      then have "first_to_last a b xs = None"
        by (simp add: first_to_last_def Let_def)
      with Cons True bout u show ?thesis
        by (simp add: first_to_last_def)
    qed
  qed
qed

text \<open>
  C3. For every text the parser returns \<^verbatim>\<open>null\<close> on the empty text and otherwise
  tries four strategies in this order and returns the result of the first that does not
  throw, and \<^verbatim>\<open>null\<close> when all four throw: (1) \<^verbatim>\<open>JSON.parse\<close> of the trimmed text, (2)
  \<^verbatim>\<open>JSON.parse\<close> of the text with the code fences removed and trimmed, (3) \<^verbatim>\<open>JSON.parse\<close>
  of the substring from the first \<^verbatim>\<open>[\<close> through the last \<^verbatim>\<open>]\<close>, (4) \<^verbatim>\<open>JSON.parse\<close> of the
  substring from the first \<^verbatim>\<open>{\<close> through the last \<^verbatim>\<open>}\<close>. Every function of the model
  is total: no input raises.

  The substring of strategy (3) is not the first well-formed array literal of the text
  (\<open>first_array_counterexample\<close>): the text \<^verbatim>\<open>[1] and [2]\<close> starts with the array
  literal \<^verbatim>\<open>[1]\<close>, the strategy takes the whole text, and the parser returns
  \<^verbatim>\<open>null\<close>.
\<close>

theorem parseJSON_cascade:
  "parseJSON_try txt =
     (if txt = [] then None
      else case JSON_parse (trim txt) of Some v \<Rightarrow> Some v | None \<Rightarrow>
       (case JSON_parse (trim (strip_fences txt)) of Some v \<Rightarrow> Some v | None \<Rightarrow>
        (case (case first_to_last 91 93 txt of None \<Rightarrow> None | Some m \<Rightarrow> JSON_parse m) of
           Some v \<Rightarrow> Some v | None \<Rightarrow>
         (case first_to_last 123 125 txt of None \<Rightarrow> None | Some m \<Rightarrow> JSON_parse m))))
   \<and> parseJSON txt = (case parseJSON_try txt of Some v \<Rightarrow> v | None \<Rightarrow> JNull)
   \<and> parseJSON [] = JNull"
  by (simp add: parseJSON_def parseJSON_try_def strategies_def match_span_first_to_last
      split: option.splits)

theorem first_array_counterexample:
  "prefix (str ''[1]'') (str ''[1] and [2]'')
   \<and> JSON_parse (str ''[1]'') = Some (JArr [JNum (Fin 1)])
   \<and> first_to_last 91 93 (str ''[1] and [2]'') = Some (str ''[1] and [2]'')
   \<and> parseJSON_try (str ''[1] and [2]'') = None
   \<and> parseJSON (str ''[1] and [2]'') = JNull"
  by (simp add: first_to_last_def cascade_eval json_eval)

theorem parseJSON_cascade_witness:
  \<open>parseJSON (str ''Here you go: [{"title": "A"}] Good luck!'')
     = JArr [JObj [(str ''title'', JStr (str ''A''))]]
   \<and> first_to_last 91 93 (str ''Here you go: [{"title": "A"}] Good luck!'')
     = Some (str ''[{"title": "A"}]'')
   \<and> JSON_parse (trim (str ''Here you go: [{"title": "A"}] Good luck!'')) = None\<close>
proof -
  have a: \<open>JSON_parse (trim (str ''Here you go: [{"title": "A"}] Good luck!'')) = None\<close>
    by (simp add: cascade_eval json_eval)
  have b: \<open>JSON_parse (trim (strip_fences (str ''Here you go: [{"title": "A"}] Good luck!''))) = None\<close>
    by (simp add: cascade_eval json_eval)
  have c: \<open>first_to_last 91 93 (str ''Here you go: [{"title": "A"}] Good luck!'')
     = Some (str ''[{"title": "A"}]'')\<close>
    by (simp add: first_to_last_def str_def)
  have d: \<open>JSON_parse (str ''[{"title": "A"}]'') = Some (JArr [JObj [(str ''title'', JStr (str ''A''))]])\<close>
    by (simp add: json_eval)
  have e: \<open>str ''Here you go: [{"title": "A"}] Good luck!'' \<noteq> []\<close>
    by (simp add: str_def)
  from parseJSON_cascade [of \<open>str ''Here you go: [{"title": "A"}] Good luck!''\<close>] a b c d e
  show ?thesis by simp
qed

subsection \<open>The order of the steps\<close>

lemma busy_inv_init: "busy_inv (init, [])"
  by (simp add: busy_inv_def)

lemma busy_inv_not_busy: "busy_inv (st, ps) \<Longrightarrow> \<not> busy st \<Longrightarrow> filter sets_busy ps = []"
  by (auto simp: busy_inv_def split: list.splits)

lemma user_step:
  "step (fst (user st ev)) \<le> Suc (step st)
   \<and> (step st = 0 \<and> step (fst (user st ev)) \<noteq> 0 \<longrightarrow>
        ev = Continue \<and> resumeText st \<noteq> [] \<and> step (fst (user st ev)) = 1)"
  by (cases ev)
     (auto simp: user_def page_def readFile_def analyze_def findJobs_def getLetter_def
        getTips_def Let_def)

lemma user_cases:
  "user st ev = (st', new) \<Longrightarrow> \<not> busy st \<Longrightarrow>
   (new = [] \<and> \<not> busy st')
   \<or> (\<not> busy st' \<and> (\<exists>j. new = [PLetter j] \<or> new = [PTips j]))
   \<or> (step st' = step st \<and> busy st' \<and> (\<exists>p. new = [p] \<and> sets_busy p \<and> stage_of p = step st))"
  by (cases ev)
     (auto simp: user_def page_def readFile_def analyze_def findJobs_def getLetter_def getTips_def
        Let_def split: if_splits)

lemma resume_cases:
  "(sets_busy p \<longrightarrow> step st = stage_of p) \<Longrightarrow>
   step (resume st p out) \<le> Suc (step st)
   \<and> (step st = 0 \<longrightarrow> step (resume st p out) = 0)
   \<and> (\<not> sets_busy p \<longrightarrow> step (resume st p out) = step st \<and> busy (resume st p out) = busy st)"
  by (cases p; cases out)
     (auto simp: resume_def readFile_resume_def analyze_resume_def findJobs_resume_def
        getLetter_resume_def getTips_resume_def Let_def split: json.splits list.splits)

lemma filter_remove_nth:
  "i < length ps \<Longrightarrow>
   filter P ps = filter P (take i ps) @ (if P (ps ! i) then [ps ! i] else []) @ filter P (drop (Suc i) ps)"
proof -
  assume "i < length ps"
  then have "ps = take i ps @ ps ! i # drop (Suc i) ps"
    by (rule id_take_nth_drop)
  then have "filter P ps = filter P (take i ps @ ps ! i # drop (Suc i) ps)"
    by simp
  then show ?thesis
    by (simp del: append_take_drop_id)
qed

lemma settle_cases:
  assumes "busy_inv (st, ps)" and "i < length ps"
  shows "(sets_busy (ps ! i) \<longrightarrow> step st = stage_of (ps ! i))
         \<and> (sets_busy (ps ! i) \<longrightarrow> filter sets_busy (take i ps @ drop (Suc i) ps) = [])
         \<and> (\<not> sets_busy (ps ! i) \<longrightarrow>
              filter sets_busy (take i ps @ drop (Suc i) ps) = filter sets_busy ps)"
proof -
  note f = filter_remove_nth [OF assms(2), of sets_busy]
  show ?thesis
  proof (cases "sets_busy (ps ! i)")
    case True
    with f have "filter sets_busy ps
        = filter sets_busy (take i ps) @ ps ! i # filter sets_busy (drop (Suc i) ps)"
      by simp
    with assms(1) True show ?thesis
      by (cases "filter sets_busy (take i ps)"; cases "filter sets_busy (drop (Suc i) ps)")
         (auto simp: busy_inv_def split: list.splits)
  next
    case False
    with f show ?thesis by simp
  qed
qed

lemma busy_inv_fire:
  assumes inv: "busy_inv c" and w: "\<not> (is_action ev \<and> busy (fst c))"
  shows "busy_inv (fire c ev)"
proof -
  obtain st ps where c: "c = (st, ps)" by (cases c)
  show ?thesis
  proof (cases "\<exists>i out. ev = Settle i out")
    case True
    then obtain i out where ev: "ev = Settle i out" by blast
    show ?thesis
    proof (cases "i < length ps")
      case False
      with inv c ev show ?thesis by simp
    next
      case True
      note s = settle_cases [OF inv [unfolded c] True]
      note r = resume_cases [of "ps ! i" st out]
      show ?thesis
      proof (cases "sets_busy (ps ! i)")
        case True
        with s c ev \<open>i < length ps\<close> show ?thesis
          by (simp add: busy_inv_def)
      next
        case False
        with s r inv c ev \<open>i < length ps\<close> show ?thesis
          by (auto simp: busy_inv_def split: list.splits)
      qed
    qed
  next
    case False
    then have a: "is_action ev" by (cases ev) simp_all
    with w c have nb: "\<not> busy st" by simp
    obtain st' new where u: "user st ev = (st', new)" by (cases "user st ev")
    from False c u have f: "fire c ev = (st', ps @ new)"
      by (cases ev) simp_all
    note e = busy_inv_not_busy [OF inv [unfolded c] nb]
    from user_cases [OF u nb] consider
        (quiet) "new = []" "\<not> busy st'"
      | (artifact) j where "new = [PLetter j] \<or> new = [PTips j]"
      | (blocking) p where "busy st'" "new = [p]" "sets_busy p" "stage_of p = step st'"
      by force
    then show ?thesis
    proof cases
      case quiet
      with e f show ?thesis by (simp add: busy_inv_def)
    next
      case artifact
      with e f show ?thesis by (auto simp: busy_inv_def)
    next
      case blocking
      with e f show ?thesis by (simp add: busy_inv_def)
    qed
  qed
qed

lemma waits_append: "waits c (xs @ ys) = (waits c xs \<and> waits (foldl fire c xs) ys)"
  by (induction xs arbitrary: c) auto

lemma waits_snoc:
  "waits c (xs @ [ev]) = (waits c xs \<and> \<not> (is_action ev \<and> busy (fst (foldl fire c xs))))"
  by (simp add: waits_append)

lemma busy_inv_run: "waits (init, []) evs \<Longrightarrow> busy_inv (run evs)"
proof (induction evs rule: rev_induct)
  case Nil
  show ?case by (simp add: run_def busy_inv_init)
next
  case (snoc ev evs)
  then show ?case
    by (simp add: run_append waits_snoc busy_inv_fire run_def)
qed

lemma step_fire:
  assumes "busy_inv c"
  shows "step (fst (fire c ev)) \<le> Suc (step (fst c))
     \<and> (step (fst c) = 0 \<and> step (fst (fire c ev)) \<noteq> 0 \<longrightarrow>
          ev = Continue \<and> resumeText (fst c) \<noteq> [] \<and> step (fst (fire c ev)) = 1)"
proof -
  obtain st ps where c: "c = (st, ps)" by (cases c)
  show ?thesis
  proof (cases "\<exists>i out. ev = Settle i out")
    case True
    then obtain i out where ev: "ev = Settle i out" by blast
    show ?thesis
    proof (cases "i < length ps")
      case False
      with c ev show ?thesis by auto
    next
      case True
      from settle_cases [OF assms [unfolded c] True]
      have "sets_busy (ps ! i) \<longrightarrow> step st = stage_of (ps ! i)" by blast
      from resume_cases [OF this, of out] c ev True show ?thesis
        by auto
    qed
  next
    case False
    obtain st' new where u: "user st ev = (st', new)" by (cases "user st ev")
    from False c u have f: "fire c ev = (st', ps @ new)"
      by (cases ev) simp_all
    from user_step [of st ev] u c f show ?thesis
      by auto
  qed
qed

text \<open>
  C8. A user action raises the step by at most one, and at step 0 (Upload) the only
  action that changes the step is \<^verbatim>\<open>Continue\<close> with a resume text present, which leads to
  step 1 (Details): every other action at step 0 leaves the step at 0. And in every session
  in which the user takes no action while \<^verbatim>\<open>busy\<close> is set, whatever the actions are and
  however the pending promises settle, one event raises the step by at most one, and an
  event that leaves step 0 is that \<^verbatim>\<open>Continue\<close>.

  The stronger sentence of the specification, for every sequence of actions, fails
  (\<open>skipped_stage_counterexample\<close>): the continuation of \<^verbatim>\<open>analyze\<close> sets step 2 without a
  test of the current step, and \<^verbatim>\<open>Back\<close> at step 1, while the answer is pending, leads to
  step 0; the answer then takes step 0 to step 2.
\<close>

theorem no_stage_is_skipped_while_user_waits:
  "step (fst (user st a)) \<le> Suc (step st)
   \<and> (step st = 0 \<and> step (fst (user st a)) \<noteq> 0 \<longrightarrow>
        a = Continue \<and> resumeText st \<noteq> [] \<and> step (fst (user st a)) = 1)
   \<and> (waits (init, []) (evs @ [ev]) \<longrightarrow>
        step (fst (run (evs @ [ev]))) \<le> Suc (step (fst (run evs)))
        \<and> (step (fst (run evs)) = 0 \<and> step (fst (run (evs @ [ev]))) \<noteq> 0 \<longrightarrow>
             ev = Continue \<and> resumeText (fst (run evs)) \<noteq> []
             \<and> step (fst (run (evs @ [ev]))) = 1))"
proof -
  have "waits (init, []) (evs @ [ev]) \<Longrightarrow> busy_inv (run evs)"
    by (simp add: waits_append busy_inv_run)
  from step_fire [OF this, of ev] user_step [of st a] show ?thesis
    by (simp add: run_append)
qed

theorem no_stage_is_skipped_while_user_waits_witness:
  "waits (init, []) [SelectFile (str ''txt''), Settle 0 (Resolved resume_txt), Continue, ClickAnalyze,
      Settle 0 (Resolved (str ''{}''))]
   \<and> step (fst (run [SelectFile (str ''txt''), Settle 0 (Resolved resume_txt)])) = 0
   \<and> step (fst (run [SelectFile (str ''txt''), Settle 0 (Resolved resume_txt), Continue])) = 1
   \<and> step (fst (run [SelectFile (str ''txt''), Settle 0 (Resolved resume_txt), Progress 2])) = 0
   \<and> step (fst (run [SelectFile (str ''txt''), Settle 0 (Resolved resume_txt), Continue, ClickAnalyze,
        Settle 0 (Resolved (str ''{}''))])) = 2"
proof -
  let ?evs = "[SelectFile (str ''txt''), Settle 0 (Resolved resume_txt)]"
  have c: "run ?evs = (init\<lparr>resumeText := resume_txt\<rparr>, [])"
    by (simp add: run_def app_eval cascade_eval sample_eval str_def)
  have w: "waits (init, []) [SelectFile (str ''txt''), Settle 0 (Resolved resume_txt), Continue,
      ClickAnalyze, Settle 0 (Resolved (str ''{}''))]"
    by (simp add: app_eval cascade_eval sample_eval str_def)
  have w2: "waits (init, []) (?evs @ [Continue])" "waits (init, []) (?evs @ [Progress 2])"
    by (simp_all add: app_eval cascade_eval sample_eval str_def)
  have s0: "step (fst (run ?evs)) = 0"
    unfolding c by (simp add: init_def)
  have s1: "step (fst (run (?evs @ [Continue]))) \<noteq> 0"
    unfolding run_append c by (simp add: app_eval resume_txt_def str_def)
  have s2: "step (fst (run [SelectFile (str ''txt''), Settle 0 (Resolved resume_txt), Continue, ClickAnalyze,
        Settle 0 (Resolved (str ''{}''))])) = 2"
    by (simp add: run_def app_eval cascade_eval json_eval sample_eval)
  have p: "Progress 2 \<noteq> Continue"
    by simp
  from no_stage_is_skipped_while_user_waits [of _ _ ?evs Continue] w2 s0 s1
  have "step (fst (run (?evs @ [Continue]))) = 1" by blast
  moreover from no_stage_is_skipped_while_user_waits [of _ _ ?evs "Progress 2"] w2 s0 p
  have "step (fst (run (?evs @ [Progress 2]))) = 0" by blast
  ultimately show ?thesis using s0 s2 w by simp
qed

theorem skipped_stage_counterexample:
  "run [SelectFile (str ''txt''), Settle 0 (Resolved resume_txt), Continue, ClickAnalyze, Back]
     = (init\<lparr>resumeText := resume_txt, busy := True\<rparr>, [PAnalyze resume_txt])
   \<and> step (fst (run [SelectFile (str ''txt''), Settle 0 (Resolved resume_txt), Continue,
        ClickAnalyze, Back])) = 0
   \<and> step (fst (run [SelectFile (str ''txt''), Settle 0 (Resolved resume_txt), Continue,
        ClickAnalyze, Back, Settle 0 (Resolved (str ''{}''))])) = 2
   \<and> \<not> waits (init, []) [SelectFile (str ''txt''), Settle 0 (Resolved resume_txt), Continue,
        ClickAnalyze, Back]"
  by (simp add: run_def app_eval cascade_eval json_eval sample_eval)

subsection \<open>Quoted strings are read back\<close>

lemma hex_val_hex_digit: "n < 16 \<Longrightarrow> hex_val (hex_digit n) = Some n"
  by (auto simp: hex_val_def hex_digit_def)

lemma hex4_unicode_escape:
  "c < 65536 \<Longrightarrow>
   hex4 (hex_digit (c div 4096 mod 16)) (hex_digit (c div 256 mod 16))
        (hex_digit (c div 16 mod 16)) (hex_digit (c mod 16)) = Some c"
proof -
  assume "c < 65536"
  then have "c mod (4096 * 16) = c" by simp
  then have a: "4096 * (c div 4096 mod 16) + c mod 4096 = c"
    by (simp only: mod_mult2_eq)
  have "c mod (256 * 16) = 256 * (c div 256 mod 16) + c mod 256"
    by (rule mod_mult2_eq)
  then have b: "c mod 4096 = 256 * (c div 256 mod 16) + c mod 256" by simp
  have "c mod (16 * 16) = 16 * (c div 16 mod 16) + c mod 16"
    by (rule mod_mult2_eq)
  then have d: "c mod 256 = 16 * (c div 16 mod 16) + c mod 16" by simp
  from a b d
  have "4096 * (c div 4096 mod 16) + 256 * (c div 256 mod 16) + 16 * (c div 16 mod 16) + c mod 16 = c"
    by linarith
  then show ?thesis
    by (simp only: hex4_def hex_val_hex_digit pos_mod_bound zero_less_numeral prod.case option.case)
qed



lemma parse_chars_u:
  "hex4 a b c d = Some u \<Longrightarrow> parse_chars t = Some (s, r) \<Longrightarrow>
   parse_chars ([92, 117, a, b, c, d] @ t) = Some (u # s, r)"
  by simp

lemma parse_chars_escape:
  "c < 65536 \<Longrightarrow> parse_chars t = Some (s, r) \<Longrightarrow>
   parse_chars (unicode_escape c @ t) = Some (c # s, r)"
  unfolding unicode_escape_def by (rule parse_chars_u [OF hex4_unicode_escape])

lemma unescape_escape_of: "escape_of c = Some e \<Longrightarrow> unescape e = Some c \<and> e \<noteq> 117"
  by (auto simp: escape_of_def unescape_def split: if_splits)

lemma parse_chars_two:
  "escape_of c = Some e \<Longrightarrow> parse_chars t = Some (s, r) \<Longrightarrow>
   parse_chars ([92, e] @ t) = Some (c # s, r)"
  using unescape_escape_of [of c e] by simp

lemma escape_of_None: "escape_of c = None \<Longrightarrow> c \<noteq> 34 \<and> c \<noteq> 92"
  by (auto simp: escape_of_def split: if_splits)

lemma parse_chars_plain:
  "32 \<le> c \<Longrightarrow> c \<noteq> 34 \<Longrightarrow> c \<noteq> 92 \<Longrightarrow> parse_chars t = Some (s, r) \<Longrightarrow>
   parse_chars (c # t) = Some (c # s, r)"
  by simp

lemma surrogate_bound: "is_high c \<or> is_low c \<Longrightarrow> c < 65536 \<and> 32 \<le> c \<and> c \<noteq> 34 \<and> c \<noteq> 92"
  by (auto simp: is_high_def is_low_def)

lemma high_not_low: "is_high c \<Longrightarrow> \<not> is_low c"
  by (simp add: is_high_def is_low_def)

lemma quote_chars_roundtrip: "parse_chars (quote_chars s @ 34 # r) = Some (s, r)"
proof (induction s rule: quote_chars.induct)
  case 1
  show ?case by simp
next
  case (2 c cs)
  show ?case
  proof (cases "escape_of c")
    case (Some e)
    with 2 have ih: "parse_chars (quote_chars cs @ 34 # r) = Some (cs, r)" by simp
    from Some have q: "quote_chars (c # cs) = [92, e] @ quote_chars cs" by simp
    from parse_chars_two [OF Some ih] show ?thesis
      unfolding q by simp
  next
    case None
    note n = escape_of_None [OF None]
    show ?thesis
    proof (cases "c < 32")
      case True
      with None 2 have ih: "parse_chars (quote_chars cs @ 34 # r) = Some (cs, r)" by simp
      from True None have q: "quote_chars (c # cs) = unicode_escape c @ quote_chars cs" by simp
      from True have "c < 65536" by simp
      from parse_chars_escape [OF this ih] show ?thesis
        unfolding q by simp
    next
      case ctl: False
      show ?thesis
      proof (cases "is_high c \<or> is_low c")
        case False
        with None ctl 2 have ih: "parse_chars (quote_chars cs @ 34 # r) = Some (cs, r)" by simp
        from False None ctl have q: "quote_chars (c # cs) = c # quote_chars cs" by simp
        from ctl n parse_chars_plain [OF _ _ _ ih, of c] show ?thesis
          unfolding q by simp
      next
        case sur: True
        from surrogate_bound [OF sur] have b: "c < 65536" by simp
        show ?thesis
        proof (cases "is_high c \<and> (\<exists>d ds. cs = d # ds \<and> is_low d)")
          case True
          then obtain d ds where p: "is_high c" "cs = d # ds" "is_low d" by blast
          with None ctl 2 have ih: "parse_chars (quote_chars ds @ 34 # r) = Some (ds, r)" by simp
          from p None ctl have q: "quote_chars (c # cs) = c # d # quote_chars ds" by simp
          from surrogate_bound [of d] p(3) have d: "32 \<le> d" "d \<noteq> 34" "d \<noteq> 92" by simp_all
          from parse_chars_plain [OF d ih] have "parse_chars (d # quote_chars ds @ 34 # r) = Some (d # ds, r)" .
          from parse_chars_plain [OF _ _ _ this, of c] ctl n p(2) show ?thesis
            unfolding q by simp
        next
          case False
          with None ctl sur have q: "quote_chars (c # cs) = unicode_escape c @ quote_chars cs"
            by (cases cs) (auto simp: high_not_low)
          from False None ctl sur 2 have ih: "parse_chars (quote_chars cs @ 34 # r) = Some (cs, r)"
            by (cases cs) (auto simp: high_not_low simp del: quote_chars.simps(2))
          from parse_chars_escape [OF b ih] show ?thesis
            unfolding q by simp
        qed
      qed
    qed
  qed
qed

subsection \<open>The text of a number inside a longer text\<close>

lemma digits_append:
  "dropWhile is_digit a \<noteq> [] \<or> no_digit_ahead r \<Longrightarrow>
   takeWhile is_digit (a @ r) = takeWhile is_digit a \<and>
   dropWhile is_digit (a @ r) = dropWhile is_digit a @ r"
proof (induction a)
  case Nil
  then show ?case
    by (cases r) (auto simp: no_digit_ahead_def)
next
  case (Cons x xs)
  then show ?case by auto
qed

lemma delimited_no_digit: "delimited r \<Longrightarrow> no_digit_ahead r"
  by (auto simp: delimited_def no_digit_ahead_def is_digit_def split: list.splits)

lemma parse_exp_append:
  "parse_exp s = Some (ex, s') \<Longrightarrow> s' \<noteq> [] \<or> delimited r \<Longrightarrow>
   parse_exp (s @ r) = Some (ex, s' @ r)"
proof -
  assume p: "parse_exp s = Some (ex, s')" and d: "s' \<noteq> [] \<or> delimited r"
  show ?thesis
  proof (cases s)
    case Nil
    with p d show ?thesis
      by (cases r) (auto simp: parse_exp_def delimited_def)
  next
    case (Cons c cs)
    show ?thesis
    proof (cases "c = 101 \<or> c = 69")
      case False
      with p Cons show ?thesis by (auto simp: parse_exp_def)
    next
      case True
      obtain neg t where nt: "(case cs of [] \<Rightarrow> (False, cs)
          | d # ds \<Rightarrow> if d = 45 then (True, ds) else if d = 43 then (False, ds) else (False, cs)) = (neg, t)"
        by (cases "(case cs of [] \<Rightarrow> (False, cs)
          | d # ds \<Rightarrow> if d = 45 then (True, ds) else if d = 43 then (False, ds) else (False, cs))")
      from p Cons True nt have e: "takeWhile is_digit t \<noteq> []" "s' = dropWhile is_digit t"
        "ex = (if neg then - int (digits_val (takeWhile is_digit t)) else int (digits_val (takeWhile is_digit t)))"
        by (auto simp: parse_exp_def Let_def split: if_splits)
      from e(1) have "t \<noteq> []" by auto
      with nt have "cs \<noteq> []" by (auto split: list.splits)
      with nt have nt': "(case cs @ r of [] \<Rightarrow> (False, cs @ r)
          | d # ds \<Rightarrow> if d = 45 then (True, ds) else if d = 43 then (False, ds) else (False, cs @ r)) = (neg, t @ r)"
        by (cases cs) (auto split: if_splits)
      from d e(2) delimited_no_digit have "dropWhile is_digit t \<noteq> [] \<or> no_digit_ahead r" by auto
      from digits_append [OF this] e Cons True nt' show ?thesis
        by (simp add: parse_exp_def Let_def)
    qed
  qed
qed

lemma parse_frac_append:
  "parse_frac s = Some (fd, s') \<Longrightarrow> s' \<noteq> [] \<or> delimited r \<Longrightarrow>
   parse_frac (s @ r) = Some (fd, s' @ r)"
proof -
  assume p: "parse_frac s = Some (fd, s')" and d: "s' \<noteq> [] \<or> delimited r"
  show ?thesis
  proof (cases s)
    case Nil
    with p d show ?thesis
      by (cases r) (auto simp: parse_frac_def delimited_def)
  next
    case (Cons c cs)
    show ?thesis
    proof (cases "c = 46")
      case False
      with p Cons show ?thesis by (auto simp: parse_frac_def)
    next
      case True
      with p Cons have e: "takeWhile is_digit cs \<noteq> []" "s' = dropWhile is_digit cs"
        "fd = takeWhile is_digit cs"
        by (auto simp: parse_frac_def Let_def split: if_splits)
      from d e(2) delimited_no_digit have "dropWhile is_digit cs \<noteq> [] \<or> no_digit_ahead r" by auto
      from digits_append [OF this] e Cons True show ?thesis
        by (simp add: parse_frac_def Let_def)
    qed
  qed
qed

lemma parse_int_append:
  "parse_int s = Some (ip, s') \<Longrightarrow> s' \<noteq> [] \<or> delimited r \<Longrightarrow>
   parse_int (s @ r) = Some (ip, s' @ r)"
proof -
  assume p: "parse_int s = Some (ip, s')" and d: "s' \<noteq> [] \<or> delimited r"
  show ?thesis
  proof (cases s)
    case Nil
    with p show ?thesis by (simp add: parse_int_def)
  next
    case (Cons c cs)
    show ?thesis
    proof (cases "c = 48")
      case True
      with p Cons show ?thesis by (auto simp: parse_int_def)
    next
      case False
      with p Cons have e: "is_digit c" "ip = takeWhile is_digit s" "s' = dropWhile is_digit s"
        by (auto simp: parse_int_def split: if_splits)
      from d e(3) delimited_no_digit have "dropWhile is_digit s \<noteq> [] \<or> no_digit_ahead r" by auto
      from digits_append [OF this] e Cons False show ?thesis
        by (simp add: parse_int_def)
    qed
  qed
qed

lemma parse_number_append:
  assumes "parse_number s = Some (x, [])" and "delimited r"
  shows "parse_number (s @ r) = Some (x, r)"
proof -
  obtain neg s1 where n: "(case s of [] \<Rightarrow> (False, s) | c # cs \<Rightarrow> if c = 45 then (True, cs) else (False, s)) = (neg, s1)"
    by (cases "(case s of [] \<Rightarrow> (False, s) | c # cs \<Rightarrow> if c = 45 then (True, cs) else (False, s))")
  from assms(1) n obtain ip s2 fd s3 ex where
    st: "parse_int s1 = Some (ip, s2)" "parse_frac s2 = Some (fd, s3)" "parse_exp s3 = Some (ex, [])"
      "x = Number_of_literal neg (digits_val (ip @ fd)) (ex - int (length fd))"
    by (auto simp: parse_number_def split: option.splits)
  from st(1) have "s1 \<noteq> []" by (auto simp: parse_int_def)
  with n have "s \<noteq> []" by auto
  with n have n': "(case s @ r of [] \<Rightarrow> (False, s @ r) | c # cs \<Rightarrow> if c = 45 then (True, cs) else (False, s @ r)) = (neg, s1 @ r)"
    by (cases s) (auto split: if_splits)
  from parse_exp_append [OF st(3), of r] assms(2) have e: "parse_exp (s3 @ r) = Some (ex, r)" by simp
  from parse_frac_append [OF st(2), of r] assms(2) have f: "parse_frac (s2 @ r) = Some (fd, s3 @ r)" by simp
  from parse_int_append [OF st(1), of r] assms(2) have i: "parse_int (s1 @ r) = Some (ip, s2 @ r)" by simp
  from n' i f e st(4) show ?thesis
    by (simp add: parse_number_def)
qed

lemma parse_number_head:
  "parse_number s = Some (x, r) \<Longrightarrow> \<exists>c cs. s = c # cs \<and> (c = 45 \<or> is_digit c)"
  by (cases s) (auto simp: parse_number_def parse_int_def is_digit_def split: option.splits if_splits)

lemma parse_int_shape:
  "parse_int s = Some (ip, s') \<Longrightarrow> s = ip @ s' \<and> ip \<noteq> [] \<and> is_digit (last ip)"
proof (cases s)
  case Nil
  assume "parse_int s = Some (ip, s')"
  with Nil show ?thesis by (simp add: parse_int_def)
next
  case (Cons c cs)
  assume p: "parse_int s = Some (ip, s')"
  show ?thesis
  proof (cases "c = 48")
    case True
    with p Cons show ?thesis by (auto simp: parse_int_def is_digit_def)
  next
    case False
    with p Cons have e: "is_digit c" "ip = takeWhile is_digit s" "s' = dropWhile is_digit s"
      by (auto simp: parse_int_def split: if_splits)
    from e(1) Cons have ne: "takeWhile is_digit s \<noteq> []" by simp
    then have "last (takeWhile is_digit s) \<in> set (takeWhile is_digit s)" by (rule last_in_set)
    then have "is_digit (last (takeWhile is_digit s))" by (rule set_takeWhileD [THEN conjunct2])
    with e ne show ?thesis by simp
  qed
qed

lemma parse_frac_shape:
  "parse_frac s = Some (fd, s') \<Longrightarrow>
   (fd = [] \<and> s = s') \<or> (s = 46 # fd @ s' \<and> fd \<noteq> [] \<and> is_digit (last fd))"
proof (cases s)
  case Nil
  assume "parse_frac s = Some (fd, s')"
  with Nil show ?thesis by (simp add: parse_frac_def)
next
  case (Cons c cs)
  assume p: "parse_frac s = Some (fd, s')"
  show ?thesis
  proof (cases "c = 46")
    case False
    with p Cons show ?thesis by (auto simp: parse_frac_def)
  next
    case True
    with p Cons have e: "fd = takeWhile is_digit cs" "s' = dropWhile is_digit cs" "takeWhile is_digit cs \<noteq> []"
      by (auto simp: parse_frac_def Let_def split: if_splits)
    from e(3) have "last (takeWhile is_digit cs) \<in> set (takeWhile is_digit cs)" by (rule last_in_set)
    then have "is_digit (last (takeWhile is_digit cs))" by (rule set_takeWhileD [THEN conjunct2])
    with e Cons True show ?thesis by simp
  qed
qed

lemma parse_exp_shape:
  "parse_exp s = Some (ex, []) \<Longrightarrow> s = [] \<or> is_digit (last s)"
proof (cases s)
  case Nil
  then show ?thesis by simp
next
  case (Cons c cs)
  assume p: "parse_exp s = Some (ex, [])"
  show ?thesis
  proof (cases "c = 101 \<or> c = 69")
    case False
    with p Cons show ?thesis by (auto simp: parse_exp_def)
  next
    case True
    obtain neg t where nt: "(case cs of [] \<Rightarrow> (False, cs)
        | d # ds \<Rightarrow> if d = 45 then (True, ds) else if d = 43 then (False, ds) else (False, cs)) = (neg, t)"
      by (cases "(case cs of [] \<Rightarrow> (False, cs)
        | d # ds \<Rightarrow> if d = 45 then (True, ds) else if d = 43 then (False, ds) else (False, cs))")
    from p Cons True nt have e: "takeWhile is_digit t \<noteq> []" "dropWhile is_digit t = []"
      by (auto simp: parse_exp_def Let_def split: if_splits)
    from e(2) have all: "takeWhile is_digit t = t"
      by (metis append_Nil2 takeWhile_dropWhile_id)
    with e(1) have tne: "t \<noteq> []" by auto
    from all have "\<forall>x \<in> set t. is_digit x"
      by (metis set_takeWhileD)
    with tne have dl: "is_digit (last t)" by simp
    from nt tne have "last cs = last t \<and> cs \<noteq> []"
      by (cases cs) (auto split: if_splits)
    with dl Cons show ?thesis by simp
  qed
qed

lemma parse_number_last:
  assumes "parse_number s = Some (x, [])"
  shows "s \<noteq> [] \<and> is_digit (last s)"
proof -
  obtain neg s1 where n: "(case s of [] \<Rightarrow> (False, s) | c # cs \<Rightarrow> if c = 45 then (True, cs) else (False, s)) = (neg, s1)"
    by (cases "(case s of [] \<Rightarrow> (False, s) | c # cs \<Rightarrow> if c = 45 then (True, cs) else (False, s))")
  from assms n obtain ip s2 fd s3 ex where
    st: "parse_int s1 = Some (ip, s2)" "parse_frac s2 = Some (fd, s3)" "parse_exp s3 = Some (ex, [])"
    by (auto simp: parse_number_def split: option.splits)
  from parse_int_shape [OF st(1)] parse_frac_shape [OF st(2)] parse_exp_shape [OF st(3)]
  have "s1 \<noteq> [] \<and> is_digit (last s1)"
    by (auto simp: last_append)
  moreover from n this have "s \<noteq> [] \<and> last s = last s1"
    by (cases s) (auto split: if_splits)
  ultimately show ?thesis by simp
qed

subsection \<open>Serialized values are read back\<close>

lemma skip_ws_head: "\<not> is_json_ws c \<Longrightarrow> skip_ws (c # cs) = c # cs"
  by (simp add: skip_ws_def)

lemma value_null: "parse_value (Suc n) ([110, 117, 108, 108] @ r) = Some (JNull, r)"
  by (simp add: skip_ws_def is_json_ws_def)

lemma value_true: "parse_value (Suc n) ([116, 114, 117, 101] @ r) = Some (JBool True, r)"
  by (simp add: skip_ws_def is_json_ws_def)

lemma value_false: "parse_value (Suc n) ([102, 97, 108, 115, 101] @ r) = Some (JBool False, r)"
  by (simp add: skip_ws_def is_json_ws_def)

lemma value_string: "parse_value (Suc n) (34 # quote_chars s @ 34 # r) = Some (JStr s, r)"
  by (simp add: skip_ws_def is_json_ws_def quote_chars_roundtrip)

lemma value_number:
  assumes "parse_number t = Some (x, [])" and "delimited r"
  shows "parse_value (Suc n) (t @ r) = Some (JNum x, r)"
proof -
  from parse_number_head [OF assms(1)] obtain c cs where t: "t = c # cs" "c = 45 \<or> is_digit c"
    by blast
  from t(2) have c: "\<not> is_json_ws c" "c \<noteq> 91" "c \<noteq> 123" "c \<noteq> 34" "c \<noteq> 116" "c \<noteq> 102" "c \<noteq> 110"
    by (auto simp: is_json_ws_def is_digit_def)
  from parse_number_append [OF assms] have "parse_number (c # cs @ r) = Some (x, r)"
    by (simp add: t)
  with c show ?thesis
    by (simp add: t skip_ws_head)
qed

lemma value_empty_array: "parse_value (Suc n) (91 # 93 # r) = Some (JArr [], r)"
  by (simp add: skip_ws_def is_json_ws_def)

lemma value_empty_object: "parse_value (Suc n) (123 # 125 # r) = Some (JObj [], r)"
  by (simp add: skip_ws_def is_json_ws_def)

lemma value_array:
  "\<not> is_json_ws c \<Longrightarrow> c \<noteq> 93 \<Longrightarrow> parse_value (Suc n) (91 # c # cs) = parse_elems n [] (c # cs)"
  by (simp add: skip_ws_def is_json_ws_def)

lemma value_object:
  "parse_value (Suc n) (123 # 34 # cs) = parse_members n [] (34 # cs)"
  by (simp add: skip_ws_def is_json_ws_def)

lemma elems_more:
  "parse_value n s = Some (v, 44 # t) \<Longrightarrow> parse_elems (Suc n) acc s = parse_elems n (acc @ [v]) t"
  by (simp add: skip_ws_def is_json_ws_def)

lemma elems_last:
  "parse_value n s = Some (v, 93 # t) \<Longrightarrow> parse_elems (Suc n) acc s = Some (JArr (acc @ [v]), t)"
  by (simp add: skip_ws_def is_json_ws_def)

lemma members_more:
  "parse_value n s = Some (v, 44 # t) \<Longrightarrow>
   parse_members (Suc n) acc (34 # quote_chars k @ 34 # 58 # s) = parse_members n (obj_set k v acc) t"
  by (simp add: skip_ws_def is_json_ws_def quote_chars_roundtrip)

lemma members_last:
  "parse_value n s = Some (v, 125 # t) \<Longrightarrow>
   parse_members (Suc n) acc (34 # quote_chars k @ 34 # 58 # s) = Some (JObj (obj_set k v acc), t)"
  by (simp add: skip_ws_def is_json_ws_def quote_chars_roundtrip)

lemma obj_insert_end:
  "\<forall>k' \<in> fst ` set acc. key_before k' k \<Longrightarrow> obj_insert k v acc = acc @ [(k, v)]"
  by (induction acc) (auto simp: key_before_def split: if_splits)

lemma obj_set_new:
  "k \<notin> fst ` set acc \<Longrightarrow> sorted_wrt key_before (map fst (acc @ [(k, v)])) \<Longrightarrow>
   obj_set k v acc = acc @ [(k, v)]"
  by (simp add: obj_set_def sorted_wrt_append obj_insert_end)

lemma stringify_head:
  "numbers_ok nt v \<Longrightarrow>
   \<exists>c cs. stringify nt v = c # cs \<and> \<not> is_json_ws c \<and> \<not> is_space c \<and> c \<noteq> 93"
proof (cases v)
  case (JNum x)
  assume "numbers_ok nt v"
  with JNum obtain q where q: "x = Fin q" "parse_number (nt q) = Some (Fin q, [])"
    by (cases x) auto
  from parse_number_head [OF q(2)] JNum q(1) show ?thesis
    by (auto simp: is_json_ws_def is_space_def is_digit_def)
qed (auto simp: is_json_ws_def is_space_def)

lemma delimited_simps:
  "delimited []" "delimited (44 # r)" "delimited (93 # r)" "delimited (125 # r)"
  by (simp_all add: delimited_def)

lemma stringify_roundtrip:
  "numbers_ok nt v \<Longrightarrow> keys_ok v \<Longrightarrow> delimited r \<Longrightarrow> 2 * length (stringify nt v) \<le> n \<Longrightarrow>
     parse_value n (stringify nt v @ r) = Some (v, r)"
  "list_all (numbers_ok nt) xs \<Longrightarrow> list_all keys_ok xs \<Longrightarrow> xs \<noteq> [] \<Longrightarrow>
   2 * length (stringify_elems nt xs) + 1 \<le> n \<Longrightarrow>
     parse_elems n acc (stringify_elems nt xs @ 93 # r) = Some (JArr (acc @ xs), r)"
  "list_all (\<lambda>kv. numbers_ok nt (snd kv)) kvs \<Longrightarrow> list_all (\<lambda>kv. keys_ok (snd kv)) kvs \<Longrightarrow>
   distinct (map fst kvs) \<Longrightarrow> kvs \<noteq> [] \<Longrightarrow> fst ` set ac \<inter> fst ` set kvs = {} \<Longrightarrow>
   sorted_wrt key_before (map fst (ac @ kvs)) \<Longrightarrow>
   2 * length (stringify_members nt kvs) + 1 \<le> n \<Longrightarrow>
     parse_members n ac (stringify_members nt kvs @ 125 # r) = Some (JObj (ac @ kvs), r)"
proof (induction nt v and nt xs and nt kvs arbitrary: n r and n acc r and n ac r
    rule: stringify_stringify_elems_stringify_members.induct)
  case (1 nt)
  then obtain k where "n = Suc k" by (cases n) auto
  then show ?case using value_null by simp
next
  case (2 nt b)
  then obtain k where "n = Suc k" by (cases n) (auto split: if_splits)
  then show ?case using value_true value_false by (cases b) simp_all
next
  case (3 nt x)
  then obtain q where q: "x = Fin q" "parse_number (nt q) = Some (Fin q, [])"
    by (cases x) auto
  from parse_number_head [OF q(2)] have "nt q \<noteq> []" by auto
  with 3 q obtain k where "n = Suc k" by (cases n) auto
  with value_number [OF q(2) \<open>delimited r\<close>] q show ?case by simp
next
  case (4 nt s)
  then obtain k where "n = Suc k" by (cases n) auto
  then show ?case using value_string by simp
next
  case (5 nt xs)
  from 5 obtain k where k: "n = Suc k" by (cases n) auto
  show ?case
  proof (cases xs)
    case Nil
    with k show ?thesis using value_empty_array by simp
  next
    case (Cons y ys)
    with 5 have ok: "numbers_ok nt y" by simp
    have "stringify_elems nt xs \<noteq> [] \<and> hd (stringify_elems nt xs) = hd (stringify nt y)"
      using stringify_head [OF ok] Cons by (cases ys) auto
    with stringify_head [OF ok] obtain c cs where
      h: "stringify_elems nt xs = c # cs" "\<not> is_json_ws c" "c \<noteq> 93"
      by (cases "stringify_elems nt xs") auto
    from 5 Cons k have "parse_elems k [] (stringify_elems nt xs @ 93 # r) = Some (JArr ([] @ xs), r)"
      by (intro 5) auto
    with h k value_array [OF h(2,3), of k "cs @ 93 # r"] show ?thesis
      by simp
  qed
next
  case (6 nt kvs)
  from 6 obtain k where k: "n = Suc k" by (cases n) auto
  show ?case
  proof (cases kvs)
    case Nil
    with k show ?thesis using value_empty_object by simp
  next
    case (Cons kv kvs')
    then obtain cs where h: "stringify_members nt kvs = 34 # cs"
      by (cases kv; cases kvs') auto
    from 6 Cons k have "parse_members k [] (stringify_members nt kvs @ 125 # r) = Some (JObj ([] @ kvs), r)"
      by (intro 6) auto
    with h k value_object [of k "cs @ 125 # r"] show ?thesis
      by simp
  qed
next
  case (7 nt)
  then show ?case by simp
next
  case (8 nt x)
  from 8 obtain k where k: "n = Suc k" by (cases n) auto
  from 8 k have "parse_value k (stringify nt x @ 93 # r) = Some (x, 93 # r)"
    by (intro 8) (auto simp: delimited_simps)
  from elems_last [OF this] k show ?case by simp
next
  case (9 nt x y ys)
  from 9 obtain k where k: "n = Suc k" by (cases n) auto
  let ?rest = "stringify_elems nt (y # ys) @ 93 # r"
  from 9 k have "parse_value k (stringify nt x @ 44 # ?rest) = Some (x, 44 # ?rest)"
    by (intro 9) (auto simp: delimited_simps)
  from elems_more [OF this] have
    "parse_elems (Suc k) acc (stringify nt x @ 44 # ?rest) = parse_elems k (acc @ [x]) ?rest" .
  moreover from 9 k have "parse_elems k (acc @ [x]) ?rest = Some (JArr ((acc @ [x]) @ y # ys), r)"
    by (intro 9) auto
  ultimately show ?case using k by simp
next
  case (10 nt)
  then show ?case by simp
next
  case (11 nt key v)
  from 11 obtain k where k: "n = Suc k" by (cases n) auto
  from 11 k have "parse_value k (stringify nt v @ 125 # r) = Some (v, 125 # r)"
    by (intro 11) (auto simp: delimited_simps)
  from members_last [OF this, of ac key] 11 k show ?case
    by (simp add: obj_set_new)
next
  case (12 nt key v kv kvs)
  from 12 obtain k where k: "n = Suc k" by (cases n) auto
  let ?rest = "stringify_members nt (kv # kvs) @ 125 # r"
  from 12 k have "parse_value k (stringify nt v @ 44 # ?rest) = Some (v, 44 # ?rest)"
    by (intro 12) (auto simp: delimited_simps)
  from members_more [OF this, of ac key] have
    "parse_members (Suc k) ac (34 # quote_chars key @ 34 # 58 # stringify nt v @ 44 # ?rest)
      = parse_members k (obj_set key v ac) ?rest" .
  moreover from 12 have new: "obj_set key v ac = ac @ [(key, v)]"
    by (intro obj_set_new) (auto simp: sorted_wrt_append)
  moreover from 12 k have "parse_members k (ac @ [(key, v)]) ?rest
      = Some (JObj ((ac @ [(key, v)]) @ kv # kvs), r)"
    by (intro 12) auto
  ultimately show ?case using k by simp
qed

subsection \<open>The properties of a parsed object are distinct and in order\<close>

lemma obj_insert_keys: "fst ` set (obj_insert k v ac) = insert k (fst ` set ac)"
proof (induction ac)
  case Nil
  show ?case by simp
next
  case (Cons a ac)
  obtain k' v' where a: "a = (k', v')" by (cases a)
  with Cons show ?case by (simp add: insert_commute)
qed

lemma obj_update_keys: "map (fst \<circ> (\<lambda>kv. if fst kv = k then (k, v) else kv)) ac = map fst ac"
  by (induction ac) auto

lemma obj_insert_distinct:
  "k \<notin> fst ` set ac \<Longrightarrow> distinct (map fst ac) \<Longrightarrow> distinct (map fst (obj_insert k v ac))"
proof (induction ac)
  case Nil
  show ?case by simp
next
  case (Cons a ac)
  obtain k' v' where a: "a = (k', v')" by (cases a)
  from Cons.prems a have "k' \<notin> fst ` set (obj_insert k v ac)"
    by (auto simp: obj_insert_keys image_iff)
  with Cons a show ?case
    by (auto simp: image_iff)
qed

lemma obj_insert_sorted:
  "sorted_wrt key_before (map fst ac) \<Longrightarrow> sorted_wrt key_before (map fst (obj_insert k v ac))"
proof (induction ac)
  case Nil
  show ?case by simp
next
  case (Cons a ac)
  obtain k' v' where a: "a = (k', v')" by (cases a)
  from Cons.prems a have s: "\<forall>x \<in> fst ` set ac. key_before k' x" "sorted_wrt key_before (map fst ac)"
    by auto
  show ?case
  proof (cases "is_index k \<and> (if is_index k' then digits_val k < digits_val k' else True)")
    case True
    then have "key_before k k'"
      by (auto simp: key_before_def split: if_splits)
    moreover from True s(1) have "\<forall>x \<in> fst ` set ac. key_before k x"
      by (fastforce simp: key_before_def split: if_splits)
    ultimately show ?thesis
      using True a Cons.prems by auto
  next
    case False
    then have "key_before k' k"
      by (auto simp: key_before_def split: if_splits)
    with s(1) have "\<forall>x \<in> fst ` set (obj_insert k v ac). key_before k' x"
      by (auto simp: obj_insert_keys)
    with False a Cons.IH [OF s(2)] show ?thesis
      by auto
  qed
qed

lemma obj_set_distinct: "distinct (map fst ac) \<Longrightarrow> distinct (map fst (obj_set k v ac))"
  by (simp add: obj_set_def obj_update_keys obj_insert_distinct)

lemma obj_set_sorted:
  "sorted_wrt key_before (map fst ac) \<Longrightarrow> sorted_wrt key_before (map fst (obj_set k v ac))"
  by (simp add: obj_set_def obj_update_keys obj_insert_sorted)

lemma obj_insert_all: "P (k, v) \<Longrightarrow> list_all P ac \<Longrightarrow> list_all P (obj_insert k v ac)"
  by (induction ac) auto

lemma obj_set_all: "P (k, v) \<Longrightarrow> list_all P ac \<Longrightarrow> list_all P (obj_set k v ac)"
proof (cases "k \<in> fst ` set ac")
  case True
  assume "P (k, v)" "list_all P ac"
  with True show ?thesis
    by (auto simp: obj_set_def list_all_iff)
next
  case False
  assume "P (k, v)" "list_all P ac"
  with False show ?thesis
    by (simp add: obj_set_def obj_insert_all)
qed

lemma parse_keys_ok_aux:
  "(\<forall>s v r. parse_value n s = Some (v, r) \<longrightarrow> keys_ok v)
   \<and> (\<forall>acc s v r. parse_elems n acc s = Some (v, r) \<longrightarrow> list_all keys_ok acc \<longrightarrow> keys_ok v)
   \<and> (\<forall>ac s v r. parse_members n ac s = Some (v, r) \<longrightarrow> distinct (map fst ac) \<longrightarrow>
         sorted_wrt key_before (map fst ac) \<longrightarrow>
         list_all (\<lambda>kv. keys_ok (snd kv)) ac \<longrightarrow> keys_ok v)"
proof (induction n)
  case 0
  show ?case by simp
next
  case (Suc n)
  then have ih1: "\<And>s v r. parse_value n s = Some (v, r) \<Longrightarrow> keys_ok v"
    and ih2: "\<And>acc s v r. parse_elems n acc s = Some (v, r) \<Longrightarrow> list_all keys_ok acc \<Longrightarrow> keys_ok v"
    and ih3: "\<And>ac s v r. parse_members n ac s = Some (v, r) \<Longrightarrow> distinct (map fst ac) \<Longrightarrow>
         sorted_wrt key_before (map fst ac) \<Longrightarrow>
         list_all (\<lambda>kv. keys_ok (snd kv)) ac \<Longrightarrow> keys_ok v"
    by blast+
  have v: "keys_ok v" if "parse_value (Suc n) s = Some (v, r)" for s v r
    using that ih2 [of "[]"] ih3 [of "[]"]
    by (auto split: list.splits if_splits option.splits)
  have e: "keys_ok v" if "parse_elems (Suc n) acc s = Some (v, r)" "list_all keys_ok acc" for acc s v r
  proof -
    from that(1) obtain v1 r1 where pv: "parse_value n s = Some (v1, r1)"
      and alt: "(\<exists>ds. parse_elems n (acc @ [v1]) ds = Some (v, r)) \<or> (v = JArr (acc @ [v1]))"
      by (force split: option.splits list.splits if_splits)
    from ih1 [OF pv] that(2) have "list_all keys_ok (acc @ [v1])" by simp
    with alt ih2 show ?thesis by auto
  qed
  have m: "keys_ok v" if "parse_members (Suc n) ac s = Some (v, r)" "distinct (map fst ac)"
    "list_all (\<lambda>kv. keys_ok (snd kv)) ac" "sorted_wrt key_before (map fst ac)" for ac s v r
  proof -
    from that(1) obtain k v1 r0 r1 where pv: "parse_value n r0 = Some (v1, r1)"
      and alt: "(\<exists>ds. parse_members n (obj_set k v1 ac) ds = Some (v, r)) \<or> (v = JObj (obj_set k v1 ac))"
      by (force split: option.splits list.splits if_splits)
    from ih1 [OF pv] that(3) have a: "list_all (\<lambda>kv. keys_ok (snd kv)) (obj_set k v1 ac)"
      by (intro obj_set_all) simp_all
    from that(2) have d: "distinct (map fst (obj_set k v1 ac))"
      by (rule obj_set_distinct)
    from that(4) have o: "sorted_wrt key_before (map fst (obj_set k v1 ac))"
      by (rule obj_set_sorted)
    from alt a d o ih3 show ?thesis by auto
  qed
  from v e m show ?case by blast
qed

lemma parse_value_keys_ok: "parse_value n s = Some (v, r) \<Longrightarrow> keys_ok v"
  using parse_keys_ok_aux [of n] by blast

lemma JSON_parse_keys_ok: "JSON_parse s = Some v \<Longrightarrow> keys_ok v"
proof -
  assume "JSON_parse s = Some v"
  then obtain r where "parse_value (Suc (length s + length s)) s = Some (v, r)"
    by (auto simp: JSON_parse_def split: option.splits if_splits simp del: parse_value.simps)
  then show ?thesis by (rule parse_value_keys_ok)
qed

lemma parseJSON_try_keys_ok: "parseJSON_try txt = Some v \<Longrightarrow> keys_ok v"
  by (auto simp: parseJSON_try_def strategies_def split: option.splits if_splits
      dest: JSON_parse_keys_ok)

subsection \<open>The serialized text is trimmed\<close>

lemma trim_id: "s \<noteq> [] \<Longrightarrow> \<not> is_space (hd s) \<Longrightarrow> \<not> is_space (last s) \<Longrightarrow> trim s = s"
proof -
  assume s: "s \<noteq> []" "\<not> is_space (hd s)" "\<not> is_space (last s)"
  then have a: "dropWhile is_space s = s"
    by (cases s) auto
  from s have "rev s \<noteq> []" "\<not> is_space (hd (rev s))"
    by (simp_all add: hd_rev)
  then have "dropWhile is_space (rev s) = rev s"
    by (cases "rev s") auto
  with a show ?thesis
    by (simp add: trim_def)
qed

lemma stringify_last:
  "numbers_ok nt v \<Longrightarrow> stringify nt v \<noteq> [] \<and> \<not> is_space (last (stringify nt v))"
proof (cases v)
  case (JNum x)
  assume "numbers_ok nt v"
  with JNum obtain q where q: "x = Fin q" "parse_number (nt q) = Some (Fin q, [])"
    by (cases x) auto
  from parse_number_last [OF q(2)] JNum q(1) show ?thesis
    by (auto simp: is_space_def is_digit_def)
qed (auto simp: is_space_def)

lemma JSON_parse_stringify:
  assumes "numbers_ok nt v" and "keys_ok v"
  shows "JSON_parse (trim (stringify nt v)) = Some v"
proof -
  let ?s = "stringify nt v"
  from stringify_head [OF assms(1)] stringify_last [OF assms(1)] have "trim ?s = ?s"
    by (intro trim_id) auto
  moreover have "parse_value (Suc (length ?s + length ?s)) (?s @ []) = Some (v, [])"
    by (rule stringify_roundtrip(1) [OF assms]) (simp_all add: delimited_def)
  ultimately show ?thesis
    by (simp add: JSON_parse_def skip_ws_def)
qed

subsection \<open>Parsing a serialized value again\<close>

text \<open>
  C4. For every text on which \<^verbatim>\<open>parseJSON\<close> succeeds with a value whose Numbers are all
  finite, and for every Number text \<open>nt\<close> that \<^verbatim>\<open>JSON.parse\<close> reads back as the same Number (as
  \<^verbatim>\<open>Number::toString\<close> does), \<^verbatim>\<open>parseJSON\<close> succeeds on the serialization of the value, with
  its first strategy, and yields the same value.

  The stronger sentence of the specification fails on a value that holds an infinite
  Number (\<open>infinite_number_counterexample\<close>): \<^verbatim>\<open>JSON.parse\<close> reads \<^verbatim>\<open>1e309\<close> as \<^verbatim>\<open>Infinity\<close>,
  the serialization of \<^verbatim>\<open>Infinity\<close> is \<^verbatim>\<open>null\<close>, and that text parses to \<^verbatim>\<open>null\<close>.
\<close>

theorem reparse_serialized:
  "parseJSON_try txt = Some v \<Longrightarrow> numbers_ok nt v \<Longrightarrow>
   parseJSON_try (stringify nt v) = Some v \<and> parseJSON (stringify nt v) = v"
proof -
  assume p: "parseJSON_try txt = Some v" and n: "numbers_ok nt v"
  from stringify_last [OF n] have "stringify nt v \<noteq> []" by simp
  with JSON_parse_stringify [OF n parseJSON_try_keys_ok [OF p]]
  have "parseJSON_try (stringify nt v) = Some v"
    by (simp add: parseJSON_try_def strategies_def)
  then show ?thesis
    by (simp add: parseJSON_def)
qed

lemma bitlen_1e309: "bitlen (10 ^ 309) = 1027"
  using bitlen_bounds [of 1026 "10 ^ 309"] by simp

lemma parse_1e309: "parseJSON_try (str ''1e309'') = Some (JNum PInf)"
  by (simp add: cascade_eval JSON_parse_def str_def skip_ws_def is_json_ws_def parse_number_def
      parse_int_def parse_frac_def parse_exp_def is_digit_def digits_val_def Number_of_literal_def
      nearest_double_def round_half_even_def bitlen_1 bitlen_1e309 [simplified])

theorem infinite_number_counterexample:
  "parseJSON_try (str ''1e309'') = Some (JNum PInf)
   \<and> stringify integer_text (JNum PInf) = str ''null''
   \<and> parseJSON_try (stringify integer_text (JNum PInf)) = Some JNull
   \<and> parseJSON (stringify integer_text (parseJSON (str ''1e309''))) \<noteq> parseJSON (str ''1e309'')"
  by (simp add: parse_1e309 parseJSON_def)
     (simp add: cascade_eval json_eval)

theorem reparse_serialized_witness:
  \<open>parseJSON_try (str '' {"skills": ["Python", "SQL"], "experience_years": 3} '')
     = Some (JObj [(str ''skills'', JArr [JStr (str ''Python''), JStr (str ''SQL'')]),
                   (str ''experience_years'', JNum (Fin 3))])
   \<and> stringify integer_text
        (JObj [(str ''skills'', JArr [JStr (str ''Python''), JStr (str ''SQL'')]),
               (str ''experience_years'', JNum (Fin 3))])
     = str ''{"skills":["Python","SQL"],"experience_years":3}''
   \<and> parseJSON (stringify integer_text
        (JObj [(str ''skills'', JArr [JStr (str ''Python''), JStr (str ''SQL'')]),
               (str ''experience_years'', JNum (Fin 3))]))
     = JObj [(str ''skills'', JArr [JStr (str ''Python''), JStr (str ''SQL'')]),
             (str ''experience_years'', JNum (Fin 3))]\<close>
proof -
  let ?v = "JObj [(str ''skills'', JArr [JStr (str ''Python''), JStr (str ''SQL'')]),
                  (str ''experience_years'', JNum (Fin 3))]"
  have p: \<open>parseJSON_try (str '' {"skills": ["Python", "SQL"], "experience_years": 3} '') = Some ?v\<close>
    by (simp add: cascade_eval json_eval)
  have n: "numbers_ok integer_text ?v"
    by (simp add: json_eval integer_text_def digits_of_digit)
  have s: \<open>stringify integer_text ?v = str ''{"skills":["Python","SQL"],"experience_years":3}''\<close>
    by (simp add: str_def escape_of_def is_high_def is_low_def integer_text_def digits_of_digit)
  from reparse_serialized [OF p n] p s show ?thesis
    by simp
qed

end
